theory Spec2Isabelle
  imports Complex_Main "HOL-Library.Log_Nat" "HOL-Library.Monad_Syntax"
begin

section \<open>JavaScript numbers\<close>

text \<open>
  Every quantity of the game (prices, costs, capacities, barrels, cash) is a JavaScript
  Number, that is an IEEE 754 binary64 value. The model keeps the four kinds of value a
  Number can be: a finite value, the two infinities and NaN. A finite value is the real
  number it stands for; the results of the arithmetic operations are rounded to binary64
  by \<open>round64\<close> below. The sign of zero is not modelled (\<open>-0\<close> is \<open>0\<close>). A numeric field
  that the source leaves \<^verbatim>\<open>undefined\<close> is \<open>NaN\<close>, which is what \<^verbatim>\<open>undefined\<close> becomes in every
  arithmetic operation and comparison, and \<open>NaN\<close> is falsy as \<^verbatim>\<open>undefined\<close> is.
\<close>

datatype jsnum = Num real | PInf | NInf | NaN

text \<open>
  Rounding to binary64, to the nearest value with ties to the even significand. \<open>rne\<close>
  rounds a real to the nearest integer, ties to even; \<open>expo x\<close> is the binary exponent of
  a positive real \<open>x\<close>, the integer \<open>e\<close> with \<open>2^e \<le> x < 2^(e+1)\<close>; \<open>dyadic m k\<close> is
  \<open>m * 2^k\<close>. A result is rounded to a multiple of \<open>2^(e-52)\<close> (53 significant bits),
  where the exponent \<open>e\<close> is not taken below \<open>-1022\<close> (gradual underflow), and a rounded
  magnitude of \<open>2^1024\<close> or more overflows to an infinity.
\<close>

definition rne :: "real \<Rightarrow> int" where
  "rne y = (let f = \<lfloor>y\<rfloor>; r = y - of_int f
            in if r < 1 / 2 then f else if 1 / 2 < r then f + 1
               else if even f then f else f + 1)"

definition expo :: "real \<Rightarrow> int" where
  "expo x = (if 1 \<le> x then bitlen \<lfloor>x\<rfloor> - 1
             else if 0 < x then - bitlen (\<lceil>1 / x\<rceil> - 1) else 0)"

definition dyadic :: "int \<Rightarrow> int \<Rightarrow> real" where
  "dyadic m k = (if 0 \<le> k then of_int (m * 2 ^ nat k) else of_int m / of_int (2 ^ nat (- k)))"

definition round64 :: "real \<Rightarrow> jsnum" where
  "round64 x =
     (let e = max (expo \<bar>x\<bar>) (- 1022);
          m = rne (x / dyadic 1 (e - 52))
      in if e < 1023 \<or> (e = 1023 \<and> \<bar>m\<bar> < 9007199254740992) then Num (dyadic m (e - 52))
         else if 0 < x then PInf else NInf)"

instantiation jsnum :: "{zero, plus, uminus, minus, times, inverse, ord}"
begin

definition zero_jsnum :: jsnum where
  "zero_jsnum = Num 0"

fun plus_jsnum :: "jsnum \<Rightarrow> jsnum \<Rightarrow> jsnum" where
  "plus_jsnum (Num a) (Num b) = round64 (a + b)"
| "plus_jsnum NaN _ = NaN"
| "plus_jsnum _ NaN = NaN"
| "plus_jsnum PInf NInf = NaN"
| "plus_jsnum NInf PInf = NaN"
| "plus_jsnum PInf _ = PInf"
| "plus_jsnum _ PInf = PInf"
| "plus_jsnum NInf _ = NInf"
| "plus_jsnum _ NInf = NInf"

fun uminus_jsnum :: "jsnum \<Rightarrow> jsnum" where
  "uminus_jsnum (Num a) = Num (- a)"
| "uminus_jsnum PInf = NInf"
| "uminus_jsnum NInf = PInf"
| "uminus_jsnum NaN = NaN"

definition minus_jsnum :: "jsnum \<Rightarrow> jsnum \<Rightarrow> jsnum" where
  "minus_jsnum a b = a + (- b)"

fun times_jsnum :: "jsnum \<Rightarrow> jsnum \<Rightarrow> jsnum" where
  "times_jsnum (Num a) (Num b) = round64 (a * b)"
| "times_jsnum NaN _ = NaN"
| "times_jsnum _ NaN = NaN"
| "times_jsnum (Num a) PInf = (if a = 0 then NaN else if 0 < a then PInf else NInf)"
| "times_jsnum (Num a) NInf = (if a = 0 then NaN else if 0 < a then NInf else PInf)"
| "times_jsnum PInf (Num b) = (if b = 0 then NaN else if 0 < b then PInf else NInf)"
| "times_jsnum NInf (Num b) = (if b = 0 then NaN else if 0 < b then NInf else PInf)"
| "times_jsnum PInf PInf = PInf"
| "times_jsnum NInf NInf = PInf"
| "times_jsnum PInf NInf = NInf"
| "times_jsnum NInf PInf = NInf"

fun divide_jsnum :: "jsnum \<Rightarrow> jsnum \<Rightarrow> jsnum" where
  "divide_jsnum (Num a) (Num b) =
     (if b = 0 then (if a = 0 then NaN else if 0 < a then PInf else NInf)
      else round64 (a / b))"
| "divide_jsnum NaN _ = NaN"
| "divide_jsnum _ NaN = NaN"
| "divide_jsnum (Num a) _ = Num 0"
| "divide_jsnum PInf (Num b) = (if 0 \<le> b then PInf else NInf)"
| "divide_jsnum NInf (Num b) = (if 0 \<le> b then NInf else PInf)"
| "divide_jsnum _ _ = NaN"

definition inverse_jsnum :: "jsnum \<Rightarrow> jsnum" where
  "inverse_jsnum a = divide (Num 1) a"

fun less_jsnum :: "jsnum \<Rightarrow> jsnum \<Rightarrow> bool" where
  "less_jsnum (Num a) (Num b) = (a < b)"
| "less_jsnum NaN _ = False"
| "less_jsnum _ NaN = False"
| "less_jsnum NInf b = (b \<noteq> NInf)"
| "less_jsnum a PInf = (a \<noteq> PInf)"
| "less_jsnum _ _ = False"

definition less_eq_jsnum :: "jsnum \<Rightarrow> jsnum \<Rightarrow> bool" where
  "less_eq_jsnum a b = (a < b \<or> (a = b \<and> a \<noteq> NaN))"

instance ..

end

text \<open>\<^verbatim>\<open>Math.min\<close> and \<^verbatim>\<open>Math.max\<close>: NaN as soon as one argument is NaN.\<close>

definition Math_min :: "jsnum \<Rightarrow> jsnum \<Rightarrow> jsnum" where
  "Math_min a b = (if a = NaN \<or> b = NaN then NaN else if a < b then a else b)"

definition Math_max :: "jsnum \<Rightarrow> jsnum \<Rightarrow> jsnum" where
  "Math_max a b = (if a = NaN \<or> b = NaN then NaN else if a < b then b else a)"

text \<open>The truth value of a Number in a condition: zero and NaN are falsy.\<close>

definition truthy :: "jsnum \<Rightarrow> bool" where
  "truthy a = (a \<noteq> Num 0 \<and> a \<noteq> NaN)"

text \<open>A number that is finite.\<close>

fun is_num :: "jsnum \<Rightarrow> bool" where
  "is_num (Num _) = True"
| "is_num _ = False"

text \<open>
  A value that a Number can hold: an infinity, NaN, or a finite value that binary64
  represents, which is one that rounding leaves as it is.
\<close>

fun is_double :: "jsnum \<Rightarrow> bool" where
  "is_double (Num r) = (round64 r = Num r)"
| "is_double _ = True"

section \<open>Data model\<close>

text \<open>
  The records keep the fields that the resolver, the pathfinder and the build commands
  read or write. Fields used only for drawing (position, colour, name, the connection
  lists) are left out.
\<close>

record game_settings =
  STARTING_CAPITAL :: jsnum
  NUM_PLAYERS :: nat
  GAME_LENGTH_TURNS :: nat
  REFINERY_BUILD_COST :: jsnum
  REFINERY_UPGRADE_COST_MULTIPLIER :: jsnum
  PIPELINE_COST_PER_EDGE :: jsnum
  REFINERY_OPERATING_COST :: jsnum
  PIPELINE_DEFAULT_FEE :: jsnum
  PRICE_VOLATILITY :: jsnum
  TERMINAL_FEE :: jsnum
  BASE_TOTAL_DEMAND :: jsnum
  REFERENCE_PRICE :: jsnum
  DEMAND_ELASTICITY :: jsnum
  REFINERY_BASE_CAPACITY :: jsnum
  PIPELINE_BASE_CAPACITY :: jsnum

text \<open>
  The settings of the source. A decimal literal that binary64 does not represent stands for
  the binary64 value nearest to it.
\<close>

definition GAME_SETTINGS :: game_settings where
  "GAME_SETTINGS = \<lparr>
     STARTING_CAPITAL = Num 50000000,
     NUM_PLAYERS = 4,
     GAME_LENGTH_TURNS = 150,
     REFINERY_BUILD_COST = Num 10000000,
     REFINERY_UPGRADE_COST_MULTIPLIER = round64 (6 / 10),
     PIPELINE_COST_PER_EDGE = Num 1000000,
     REFINERY_OPERATING_COST = Num 10,
     PIPELINE_DEFAULT_FEE = Num (1 / 2),
     PRICE_VOLATILITY = round64 (2 / 100),
     TERMINAL_FEE = Num 5,
     BASE_TOTAL_DEMAND = Num 500000,
     REFERENCE_PRICE = Num 100,
     DEMAND_ELASTICITY = round64 (3 / 10),
     REFINERY_BASE_CAPACITY = Num 10000,
     PIPELINE_BASE_CAPACITY = Num 20000 \<rparr>"

record player =
  player_id :: nat
  cash :: jsnum
  wells :: "nat list"
  refineries :: "nat list"
  pipelines :: "nat list"
  revenue_this_turn :: jsnum
  costs_this_turn :: jsnum
  profit_this_turn :: jsnum
  profit_history :: "jsnum list"
  cumulative_profit :: jsnum
  barrels_sold :: jsnum
  market_share :: jsnum

record refinery =
  ref_owner :: nat
  ref_capacity :: jsnum
  ref_fee :: jsnum
  upgrade_level :: nat
  ref_utilization :: jsnum
  barrels_processed :: jsnum

datatype supply_route =
    Import (supply_cost: jsnum) (supply_terminal: "nat option")
  | PlayerSupply (supply_production: nat) (supply_refinery: nat) (supply_demand: nat)
      (supply_cost: jsnum)

record node =
  node_id :: nat
  production_capacity :: jsnum
  well_build_cost :: jsnum
  operating_cost :: jsnum
  has_well :: bool
  well_owner :: "nat option"
  is_import_terminal :: bool
  demand_base :: jsnum
  demand_growth_rate :: jsnum
  current_demand :: jsnum
  local_price :: jsnum
  supply_source :: "supply_route option"
  buildings_refinery :: "refinery option"

record pipeline =
  pipe_owner :: "nat option"
  pipe_capacity :: jsnum
  pipe_fee :: jsnum
  pipe_utilization :: jsnum

record edge =
  edge_id :: nat
  node_a :: nat
  node_b :: nat
  truck_cost :: jsnum
  rail_available :: bool
  rail_cost :: jsnum
  transportation_pipeline :: pipeline
  flow_volume :: jsnum

record pathfinder =
  pf_dist :: "jsnum list list"
  pf_next :: "nat option list list"

record snapshot =
  snap_turn :: nat
  snap_globalPrice :: jsnum
  snap_players :: "(nat \<times> jsnum \<times> jsnum \<times> jsnum) list"

record game_state =
  settings :: game_settings
  turn :: nat
  global_oil_price :: jsnum
  global_crude_price :: jsnum
  global_refined_price :: jsnum
  players :: "player list"
  nodes :: "node list"
  edges :: "edge list"
  pathfinder :: pathfinder
  turnHistory :: "snapshot list"

text \<open>
  The constructor of \<^verbatim>\<open>GameState\<close>. It reads \<^verbatim>\<open>settings.INITIAL_OIL_PRICE\<close>, which is not a key
  of the settings, so \<^verbatim>\<open>global_oil_price\<close> is \<^verbatim>\<open>undefined\<close>; it does not assign
  \<^verbatim>\<open>global_crude_price\<close> and \<^verbatim>\<open>global_refined_price\<close>, and no other place of the source does
  before the first turn. The pathfinder is \<^verbatim>\<open>null\<close> until \<^verbatim>\<open>initialize\<close>; here it is the
  pathfinder of a graph without nodes.
\<close>

definition new_GameState :: "game_settings \<Rightarrow> game_state" where
  "new_GameState st = \<lparr>
     settings = st, turn = 0, global_oil_price = NaN, global_crude_price = NaN,
     global_refined_price = NaN, players = [], nodes = [], edges = [],
     pathfinder = \<lparr> pf_dist = [], pf_next = [] \<rparr>, turnHistory = [] \<rparr>"

section \<open>Turn resolver: prices, profits, market share, winner\<close>

text \<open>
  \<^verbatim>\<open>RandomUtils.randomWalk\<close>; the value \<open>u\<close> is the draw of \<^verbatim>\<open>Math.random()\<close>.
\<close>

definition randomWalk :: "jsnum \<Rightarrow> jsnum \<Rightarrow> jsnum \<Rightarrow> jsnum" where
  "randomWalk u current volatility =
     (let change = (u - Num (1 / 2)) * Num 2 * volatility
      in current * (Num 1 + change))"

text \<open>\<^verbatim>\<open>TurnResolver.updateGlobalPrice\<close>, with the two draws of the random source.\<close>

definition updateGlobalPrice :: "jsnum \<Rightarrow> jsnum \<Rightarrow> game_state \<Rightarrow> game_state" where
  "updateGlobalPrice u1 u2 s =
     (let crude = randomWalk u1 (global_crude_price s) (PRICE_VOLATILITY (settings s));
          crude = Math_max (Num 30) (Math_min (Num 150) crude);
          refined = randomWalk u2 (global_refined_price s) (PRICE_VOLATILITY (settings s));
          refined = Math_max (Num 50) (Math_min (Num 200) refined);
          refined = (if refined < crude then crude + Num 10 else refined)
      in s\<lparr>global_crude_price := crude, global_refined_price := refined,
            global_oil_price := refined\<rparr>)"

text \<open>\<^verbatim>\<open>TurnResolver.calculatePlayerProfits\<close>: the loop body, then the loop.\<close>

definition settle_profit :: "player \<Rightarrow> player" where
  "settle_profit p =
     (let p1 = p\<lparr>profit_this_turn := revenue_this_turn p - costs_this_turn p\<rparr>;
          p2 = p1\<lparr>cash := cash p1 + profit_this_turn p1\<rparr>;
          p3 = p2\<lparr>cumulative_profit := cumulative_profit p2 + profit_this_turn p2\<rparr>
      in p3\<lparr>profit_history := profit_history p3 @ [profit_this_turn p3]\<rparr>)"

definition calculatePlayerProfits :: "player list \<Rightarrow> player list" where
  "calculatePlayerProfits ps = map settle_profit ps"

text \<open>\<^verbatim>\<open>TurnResolver.calculateMarketShare\<close>.\<close>

definition calculateMarketShare :: "player list \<Rightarrow> player list" where
  "calculateMarketShare ps =
     (let totalBarrels = foldl (\<lambda>sum p. sum + barrels_sold p) (Num 0) ps
      in if Num 0 < totalBarrels
         then map (\<lambda>p. p\<lparr>market_share := (barrels_sold p / totalBarrels) * Num 100\<rparr>) ps
         else ps)"

text \<open>
  \<^verbatim>\<open>TurnResolver.getWinner\<close>: \<^verbatim>\<open>players[0]\<close> of an empty list is \<^verbatim>\<open>undefined\<close>, which is
  \<open>None\<close> here.
\<close>

definition getWinner :: "player list \<Rightarrow> player option" where
  "getWinner ps =
     (case ps of
        [] \<Rightarrow> None
      | p0 # _ \<Rightarrow>
          Some (fold (\<lambda>p winner.
                  if cumulative_profit winner < cumulative_profit p then p else winner) ps p0))"

section \<open>Pathfinder\<close>

text \<open>
  A thrown \<^verbatim>\<open>TypeError\<close> (a property read on \<^verbatim>\<open>undefined\<close>, as for an index outside an
  array) is the result \<open>None\<close>. A loop whose body can throw stops at the first throw.
\<close>

fun for_each :: "'a list \<Rightarrow> ('a \<Rightarrow> 's \<Rightarrow> 's option) \<Rightarrow> 's \<Rightarrow> 's option" where
  "for_each [] body s = Some s"
| "for_each (x # xs) body s = (case body x s of None \<Rightarrow> None | Some s' \<Rightarrow> for_each xs body s')"

text \<open>\<^verbatim>\<open>m[i][j] = v\<close> on an array of arrays.\<close>

definition mset :: "'a list list \<Rightarrow> nat \<Rightarrow> nat \<Rightarrow> 'a \<Rightarrow> 'a list list" where
  "mset m i j v = m[i := (m ! i)[j := v]]"

text \<open>\<^verbatim>\<open>Pathfinder.getEdgeCost\<close>.\<close>

definition getEdgeCost :: "edge \<Rightarrow> jsnum" where
  "getEdgeCost e =
     (let minCost = truck_cost e;
          minCost = (if rail_available e then Math_min minCost (rail_cost e) else minCost);
          minCost = (if pipe_owner (transportation_pipeline e) \<noteq> None
                     then Math_min minCost (pipe_fee (transportation_pipeline e))
                     else minCost)
      in minCost)"

text \<open>
  \<^verbatim>\<open>Pathfinder.computeAllPaths\<close>, in its four steps: the fresh matrices, the diagonal, the
  direct edges, and the triple loop of Floyd and Warshall, which updates the matrices in
  place.
\<close>

definition init_matrices :: "nat \<Rightarrow> pathfinder" where
  "init_matrices n = \<lparr> pf_dist = replicate n (replicate n PInf),
                        pf_next = replicate n (replicate n None) \<rparr>"

definition set_diagonal :: "nat \<Rightarrow> pathfinder \<Rightarrow> pathfinder" where
  "set_diagonal n pf =
     fold (\<lambda>i pf. \<lparr> pf_dist = mset (pf_dist pf) i i (Num 0),
                     pf_next = mset (pf_next pf) i i (Some i) \<rparr>) [0..<n] pf"

text \<open>
  The body of the loop over the edges. With \<^verbatim>\<open>node_a\<close> outside the matrix,
  \<^verbatim>\<open>this.dist[node_a]\<close> is \<^verbatim>\<open>undefined\<close> and reading its element throws; with only
  \<^verbatim>\<open>node_b\<close> outside, the element is \<^verbatim>\<open>undefined\<close>, the comparison is false and the edge is
  skipped.
\<close>

definition edge_init :: "nat \<Rightarrow> edge \<Rightarrow> pathfinder \<Rightarrow> pathfinder option" where
  "edge_init n e pf =
     (let a = node_a e; b = node_b e; cost = getEdgeCost e
      in if n \<le> a then None
         else if n \<le> b then Some pf
         else if cost < pf_dist pf ! a ! b
         then Some \<lparr> pf_dist = mset (mset (pf_dist pf) a b cost) b a cost,
                      pf_next = mset (mset (pf_next pf) a b (Some b)) b a (Some a) \<rparr>
         else Some pf)"

definition relax :: "nat \<Rightarrow> nat \<Rightarrow> nat \<Rightarrow> pathfinder \<Rightarrow> pathfinder" where
  "relax k i j pf =
     (let d = pf_dist pf
      in if d ! i ! k + d ! k ! j < d ! i ! j
         then \<lparr> pf_dist = mset d i j (d ! i ! k + d ! k ! j),
                 pf_next = mset (pf_next pf) i j (pf_next pf ! i ! k) \<rparr>
         else pf)"

definition floyd_warshall :: "nat \<Rightarrow> pathfinder \<Rightarrow> pathfinder" where
  "floyd_warshall n pf =
     fold (\<lambda>k. fold (\<lambda>i. fold (\<lambda>j. relax k i j) [0..<n]) [0..<n]) [0..<n] pf"

definition computeAllPaths :: "node list \<Rightarrow> edge list \<Rightarrow> pathfinder option" where
  "computeAllPaths ns es =
     (let n = length ns
      in map_option (floyd_warshall n)
           (for_each es (edge_init n) (set_diagonal n (init_matrices n))))"

text \<open>
  \<^verbatim>\<open>Pathfinder.getCost\<close>: \<^verbatim>\<open>this.dist[from][to]\<close>. A missing row throws; a missing column
  gives \<^verbatim>\<open>undefined\<close>, which every caller uses as a number, that is NaN.
\<close>

definition getCost :: "pathfinder \<Rightarrow> nat \<Rightarrow> nat \<Rightarrow> jsnum option" where
  "getCost pf from to =
     (if from < length (pf_dist pf)
      then Some (if to < length (pf_dist pf ! from) then pf_dist pf ! from ! to else NaN)
      else None)"

text \<open>\<^verbatim>\<open>Pathfinder.findNearestTerminal\<close>; the inner option is \<^verbatim>\<open>null\<close> or the node index.\<close>

definition findNearestTerminal :: "pathfinder \<Rightarrow> nat \<Rightarrow> node list \<Rightarrow> nat option option" where
  "findNearestTerminal pf nodeId ns =
     map_option fst
       (for_each [0..<length ns]
          (\<lambda>i (nearestTerminal, minCost).
             if is_import_terminal (ns ! i)
             then (case getCost pf nodeId i of
                     None \<Rightarrow> None
                   | Some cost \<Rightarrow>
                       Some (if cost < minCost then (Some i, cost)
                             else (nearestTerminal, minCost)))
             else Some (nearestTerminal, minCost))
          (None, PInf))"

text \<open>\<^verbatim>\<open>Pathfinder.calculateLocalPrice\<close>.\<close>

definition calculateLocalPrice ::
  "pathfinder \<Rightarrow> nat \<Rightarrow> jsnum \<Rightarrow> jsnum \<Rightarrow> node list \<Rightarrow> jsnum option" where
  "calculateLocalPrice pf demandNodeId globalPrice terminalFee ns =
     (case findNearestTerminal pf demandNodeId ns of
        None \<Rightarrow> None
      | Some None \<Rightarrow> Some PInf
      | Some (Some terminalId) \<Rightarrow>
          (case getCost pf terminalId demandNodeId of
             None \<Rightarrow> None
           | Some transportCost \<Rightarrow> Some (globalPrice + terminalFee + transportCost)))"

text \<open>
  \<^verbatim>\<open>Pathfinder.findCheapestSupply\<close>. First the constant \<^verbatim>\<open>totalCost\<close> of the inner loop, for
  a production node and a node with the refinery \<open>r\<close>; then the body of the inner loop, whose
  state is the pair \<^verbatim>\<open>(cheapestCost, cheapestRoute)\<close>; then the two loops.
\<close>

definition totalCost ::
  "pathfinder \<Rightarrow> game_settings \<Rightarrow> node list \<Rightarrow> nat \<Rightarrow> nat \<Rightarrow> nat \<Rightarrow> refinery
     \<Rightarrow> jsnum option" where
  "totalCost pf st ns demandNodeId prodId refId r =
     (case getCost pf prodId refId of
        None \<Rightarrow> None
      | Some transportToRef \<Rightarrow>
          (case getCost pf refId demandNodeId of
             None \<Rightarrow> None
           | Some transportToDemand \<Rightarrow>
               Some (operating_cost (ns ! prodId) + transportToRef
                     + REFINERY_OPERATING_COST st + ref_fee r + transportToDemand)))"

definition try_route ::
  "pathfinder \<Rightarrow> game_settings \<Rightarrow> node list \<Rightarrow> nat \<Rightarrow> nat \<Rightarrow> nat
     \<Rightarrow> jsnum \<times> supply_route option \<Rightarrow> (jsnum \<times> supply_route option) option" where
  "try_route pf st ns demandNodeId prodId refId acc =
     (case buildings_refinery (ns ! refId) of
        None \<Rightarrow> Some acc
      | Some r \<Rightarrow>
          (case totalCost pf st ns demandNodeId prodId refId r of
             None \<Rightarrow> None
           | Some tc \<Rightarrow>
               Some (if tc < fst acc
                     then (tc, Some (PlayerSupply prodId refId demandNodeId tc))
                     else acc)))"

definition cheapest_route ::
  "pathfinder \<Rightarrow> game_settings \<Rightarrow> node list \<Rightarrow> nat \<Rightarrow> (jsnum \<times> supply_route option) option" where
  "cheapest_route pf st ns demandNodeId =
     for_each [0..<length ns]
       (\<lambda>prodId acc.
          if \<not> has_well (ns ! prodId) then Some acc
          else for_each [0..<length ns] (try_route pf st ns demandNodeId prodId) acc)
       (PInf, None)"

definition findCheapestSupply ::
  "pathfinder \<Rightarrow> nat \<Rightarrow> jsnum \<Rightarrow> jsnum \<Rightarrow> game_settings \<Rightarrow> node list \<Rightarrow> supply_route option" where
  "findCheapestSupply pf demandNodeId globalPrice terminalFee st ns =
     (case calculateLocalPrice pf demandNodeId globalPrice terminalFee ns of
        None \<Rightarrow> None
      | Some importPrice \<Rightarrow>
          (case cheapest_route pf st ns demandNodeId of
             None \<Rightarrow> None
           | Some (cheapestCost, cheapestRoute) \<Rightarrow>
               if importPrice < cheapestCost
               then map_option (Import importPrice) (findNearestTerminal pf demandNodeId ns)
               else (case cheapestRoute of
                       Some route \<Rightarrow> Some route
                     | None \<Rightarrow>
                         map_option (Import importPrice)
                           (findNearestTerminal pf demandNodeId ns))))"

text \<open>
  \<^verbatim>\<open>Pathfinder.getPath\<close>. The loop \<^verbatim>\<open>while (current !== to)\<close> follows the next-hop table; it
  throws when the table has no entry to follow, and it may run forever on a table with a
  cycle: both are the result \<open>None\<close>. The function \<open>follow_next\<close> is the loop and returns the
  nodes pushed after the first. The inner option of \<open>getPath\<close> is \<^verbatim>\<open>null\<close> or the path.
\<close>

partial_function (option) follow_next :: "nat option list list \<Rightarrow> nat \<Rightarrow> nat \<Rightarrow> nat list option" where
  "follow_next nx current to =
     (if current = to then Some []
      else if length nx \<le> current then None
      else if length (nx ! current) \<le> to then None
      else (case nx ! current ! to of
              None \<Rightarrow> None
            | Some c \<Rightarrow> Option.bind (follow_next nx c to) (\<lambda>path. Some (c # path))))"

declare follow_next.simps [code]

definition getPath :: "pathfinder \<Rightarrow> nat \<Rightarrow> nat \<Rightarrow> nat list option option" where
  "getPath pf from to =
     (if length (pf_next pf) \<le> from then None
      else if to < length (pf_next pf ! from) \<and> pf_next pf ! from ! to = None then Some None
      else Option.bind (follow_next (pf_next pf) from to) (\<lambda>path. Some (Some (from # path))))"

text \<open>\<^verbatim>\<open>Pathfinder.findEdge\<close> and \<^verbatim>\<open>Pathfinder.getEdgeTransportation\<close>.\<close>

definition findEdge :: "edge list \<Rightarrow> nat \<Rightarrow> nat \<Rightarrow> edge option" where
  "findEdge es nodeA nodeB =
     find (\<lambda>e. (node_a e = nodeA \<and> node_b e = nodeB) \<or> (node_a e = nodeB \<and> node_b e = nodeA)) es"

datatype transport = Truck | Rail | Pipeline

definition getEdgeTransportation :: "edge \<Rightarrow> transport \<times> jsnum" where
  "getEdgeTransportation e =
     (let choice = (Truck, truck_cost e);
          choice = (if rail_available e \<and> rail_cost e < snd choice
                    then (Rail, rail_cost e) else choice);
          choice = (if pipe_owner (transportation_pipeline e) \<noteq> None
                       \<and> pipe_fee (transportation_pipeline e) < snd choice
                    then (Pipeline, pipe_fee (transportation_pipeline e)) else choice)
      in choice)"

text \<open>
  \<^verbatim>\<open>Pathfinder.getDetailedRoute\<close>: the node path, the ids of the edges found along it, the
  total cost and its breakdown by transport.
\<close>

record route_detail =
  rd_nodes :: "nat list"
  rd_edges :: "nat list"
  rd_totalCost :: jsnum
  rd_truck :: jsnum
  rd_rail :: jsnum
  rd_pipeline :: jsnum

definition add_segment :: "edge list \<Rightarrow> nat \<times> nat \<Rightarrow> route_detail \<Rightarrow> route_detail" where
  "add_segment es seg route =
     (case findEdge es (fst seg) (snd seg) of
        None \<Rightarrow> route
      | Some e \<Rightarrow>
          (let (transportType, cost) = getEdgeTransportation e;
               route = route\<lparr>rd_edges := rd_edges route @ [edge_id e],
                             rd_totalCost := rd_totalCost route + cost\<rparr>
           in case transportType of
                Truck \<Rightarrow> route\<lparr>rd_truck := rd_truck route + cost\<rparr>
              | Rail \<Rightarrow> route\<lparr>rd_rail := rd_rail route + cost\<rparr>
              | Pipeline \<Rightarrow> route\<lparr>rd_pipeline := rd_pipeline route + cost\<rparr>))"

definition getDetailedRoute ::
  "pathfinder \<Rightarrow> edge list \<Rightarrow> nat \<Rightarrow> nat \<Rightarrow> route_detail option option" where
  "getDetailedRoute pf es from to =
     (case getPath pf from to of
        None \<Rightarrow> None
      | Some None \<Rightarrow> Some None
      | Some (Some nodePath) \<Rightarrow>
          Some (Some (fold (add_segment es) (zip nodePath (tl nodePath))
            \<lparr> rd_nodes = nodePath, rd_edges = [], rd_totalCost = Num 0,
              rd_truck = Num 0, rd_rail = Num 0, rd_pipeline = Num 0 \<rparr>)))"

section \<open>Turn resolver: the phases of a turn\<close>

text \<open>The three reset loops at the start of \<^verbatim>\<open>processTurn\<close>.\<close>

definition reset_player :: "player \<Rightarrow> player" where
  "reset_player p = p\<lparr>revenue_this_turn := Num 0, costs_this_turn := Num 0,
                       profit_this_turn := Num 0, barrels_sold := Num 0\<rparr>"

definition reset_node :: "node \<Rightarrow> node" where
  "reset_node nd =
     (case buildings_refinery nd of
        None \<Rightarrow> nd
      | Some r \<Rightarrow> nd\<lparr>buildings_refinery :=
                       Some (r\<lparr>ref_utilization := Num 0, barrels_processed := Num 0\<rparr>)\<rparr>)"

definition reset_edge :: "edge \<Rightarrow> edge" where
  "reset_edge e =
     (let e = (if pipe_owner (transportation_pipeline e) \<noteq> None
               then e\<lparr>transportation_pipeline :=
                        (transportation_pipeline e)\<lparr>pipe_utilization := Num 0\<rparr>\<rparr>
               else e)
      in e\<lparr>flow_volume := Num 0\<rparr>)"

text \<open>
  \<^verbatim>\<open>TurnResolver.productionPhase\<close>: the list of production records it returns, and the
  operating costs charged to the well owners. A well without a valid owner throws.
\<close>

record production_entry =
  prod_nodeId :: nat
  prod_owner :: "nat option"
  prod_capacity :: jsnum
  prod_operating_cost :: jsnum

definition production_step ::
  "node \<Rightarrow> production_entry list \<times> player list
     \<Rightarrow> (production_entry list \<times> player list) option" where
  "production_step nd acc =
     (if has_well nd \<and> truthy (production_capacity nd)
      then (case well_owner nd of
              None \<Rightarrow> None
            | Some w \<Rightarrow>
                if length (snd acc) \<le> w then None
                else Some
                  (fst acc @ [\<lparr> prod_nodeId = node_id nd, prod_owner = well_owner nd,
                               prod_capacity = production_capacity nd,
                               prod_operating_cost = operating_cost nd \<rparr>],
                   (snd acc)[w := (snd acc ! w)\<lparr>costs_this_turn :=
                       costs_this_turn (snd acc ! w)
                         + production_capacity nd * operating_cost nd\<rparr>]))
      else Some acc)"

definition productionPhase :: "game_state \<Rightarrow> (production_entry list \<times> game_state) option" where
  "productionPhase s =
     map_option (\<lambda>(production, ps). (production, s\<lparr>players := ps\<rparr>))
       (for_each (nodes s) production_step ([], players s))"

text \<open>
  \<^verbatim>\<open>TurnResolver.updateDemand\<close>. \<^verbatim>\<open>Math.pow\<close> is the parameter \<open>pw\<close>.
\<close>

definition demand_step ::
  "jsnum \<Rightarrow> jsnum \<Rightarrow> nat \<Rightarrow> game_state \<Rightarrow> game_state option" where
  "demand_step totalMarketDemand totalBaseDemand i s =
     (let nd = nodes s ! i
      in if truthy (demand_base nd)
         then (case calculateLocalPrice (pathfinder s) (node_id nd) (global_refined_price s)
                      (TERMINAL_FEE (settings s)) (nodes s) of
                 None \<Rightarrow> None
               | Some localPrice \<Rightarrow>
                   Some (s\<lparr>nodes := (nodes s)[i :=
                       nd\<lparr>local_price := localPrice,
                          current_demand :=
                            totalMarketDemand * (demand_base nd / totalBaseDemand)\<rparr>]\<rparr>))
         else Some s)"

definition updateDemand :: "(jsnum \<Rightarrow> jsnum \<Rightarrow> jsnum) \<Rightarrow> game_state \<Rightarrow> game_state option" where
  "updateDemand pw s =
     (let st = settings s;
          priceRatio = REFERENCE_PRICE st / global_refined_price s;
          totalMarketDemand = BASE_TOTAL_DEMAND st * pw priceRatio (DEMAND_ELASTICITY st);
          totalBaseDemand =
            foldl (\<lambda>total nd. if truthy (demand_base nd) then total + demand_base nd else total)
              (Num 0) (nodes s)
      in for_each [0..<length (nodes s)] (demand_step totalMarketDemand totalBaseDemand) s)"

text \<open>
  \<^verbatim>\<open>TurnResolver.trackRouteUsage\<close> and \<^verbatim>\<open>TurnResolver.trackInfrastructureUsage\<close>.
\<close>

definition track_edge :: "jsnum \<Rightarrow> nat \<Rightarrow> game_state \<Rightarrow> game_state option" where
  "track_edge barrels edgeId s =
     (if length (edges s) \<le> edgeId then None
      else let e = edges s ! edgeId;
               e = e\<lparr>flow_volume := flow_volume e + barrels\<rparr>
      in case pipe_owner (transportation_pipeline e) of
           None \<Rightarrow> Some (s\<lparr>edges := (edges s)[edgeId := e]\<rparr>)
         | Some owner \<Rightarrow>
             (let e = e\<lparr>transportation_pipeline := (transportation_pipeline e)
                         \<lparr>pipe_utilization :=
                            pipe_utilization (transportation_pipeline e) + barrels\<rparr>\<rparr>;
                  fee = barrels * pipe_fee (transportation_pipeline e)
              in if length (players s) \<le> owner then None
                 else Some (s\<lparr>edges := (edges s)[edgeId := e],
                             players := (players s)[owner :=
                               (players s ! owner)\<lparr>revenue_this_turn :=
                                  revenue_this_turn (players s ! owner) + fee\<rparr>]\<rparr>)))"

definition trackRouteUsage :: "route_detail \<Rightarrow> jsnum \<Rightarrow> game_state \<Rightarrow> game_state option" where
  "trackRouteUsage route barrels s = for_each (rd_edges route) (track_edge barrels) s"

definition track_leg :: "nat \<Rightarrow> nat \<Rightarrow> jsnum \<Rightarrow> game_state \<Rightarrow> game_state option" where
  "track_leg from to barrels s =
     (case getDetailedRoute (pathfinder s) (edges s) from to of
        None \<Rightarrow> None
      | Some None \<Rightarrow> Some s
      | Some (Some route) \<Rightarrow> trackRouteUsage route barrels s)"

definition trackInfrastructureUsage ::
  "nat \<Rightarrow> nat \<Rightarrow> nat \<Rightarrow> jsnum \<Rightarrow> game_state \<Rightarrow> game_state option" where
  "trackInfrastructureUsage production refinery demand barrels s =
     (case track_leg production refinery barrels s of
        None \<Rightarrow> None
      | Some s \<Rightarrow> track_leg refinery demand barrels s)"

text \<open>
  \<^verbatim>\<open>TurnResolver.routeAndSatisfyDemand\<close>. First the five statements that credit the well
  owner and the refinery owner, who may be the same player; then the settlement of a player
  route for the demand node \<open>i\<close> (the part of the loop body after
  \<^verbatim>\<open>// Player supply route\<close>); then the loop body and the loop. The parameter \<^verbatim>\<open>production\<close>
  is not read by the source.
\<close>

definition credit_sale ::
  "nat \<Rightarrow> nat \<Rightarrow> jsnum \<Rightarrow> jsnum \<Rightarrow> jsnum \<Rightarrow> jsnum \<Rightarrow> player list \<Rightarrow> player list" where
  "credit_sale wellOwner refineryOwner barrels crudePrice refinedPrice refineryCost ps =
     (let ps = ps[wellOwner := (ps ! wellOwner)\<lparr>revenue_this_turn :=
                   revenue_this_turn (ps ! wellOwner) + barrels * crudePrice\<rparr>];
          ps = ps[wellOwner := (ps ! wellOwner)\<lparr>barrels_sold :=
                   barrels_sold (ps ! wellOwner) + barrels\<rparr>];
          ps = ps[refineryOwner := (ps ! refineryOwner)\<lparr>revenue_this_turn :=
                   revenue_this_turn (ps ! refineryOwner)
                     + barrels * (refinedPrice - crudePrice)\<rparr>];
          ps = ps[refineryOwner := (ps ! refineryOwner)\<lparr>costs_this_turn :=
                   costs_this_turn (ps ! refineryOwner) + barrels * refineryCost\<rparr>];
          ps = ps[refineryOwner := (ps ! refineryOwner)\<lparr>barrels_sold :=
                   barrels_sold (ps ! refineryOwner) + barrels\<rparr>]
      in ps)"

definition settle_route :: "nat \<Rightarrow> nat \<Rightarrow> nat \<Rightarrow> nat \<Rightarrow> game_state \<Rightarrow> game_state option" where
  "settle_route i production refinery demand s =
     (let demandNode = nodes s ! i;
          prodNode = nodes s ! production;
          refNode = nodes s ! refinery
      in case buildings_refinery refNode of
           None \<Rightarrow> None
         | Some r \<Rightarrow>
             (let barrels = Math_min (current_demand demandNode)
                              (Math_min (production_capacity prodNode) (ref_capacity r))
              in if barrels \<le> Num 0 then Some s
                 else (case (well_owner prodNode, getCost (pathfinder s) production refinery,
                             getCost (pathfinder s) refinery demand) of
                         (Some w, Some toRefinery, Some toDemand) \<Rightarrow>
                           if length (players s) \<le> w \<or> length (players s) \<le> ref_owner r
                           then None
                           else
                             (let salePrice = local_price demandNode;
                                  crudePrice = operating_cost prodNode + toRefinery;
                                  refinedPrice = salePrice;
                                  refineryCost = REFINERY_OPERATING_COST (settings s)
                                                   + ref_fee r + toDemand;
                                  s = s\<lparr>players := credit_sale w (ref_owner r) barrels
                                         crudePrice refinedPrice refineryCost (players s)\<rparr>
                              in case trackInfrastructureUsage production refinery demand
                                        barrels s of
                                   None \<Rightarrow> None
                                 | Some s \<Rightarrow>
                                     (case buildings_refinery (nodes s ! refinery) of
                                        None \<Rightarrow> None
                                      | Some r \<Rightarrow>
                                          (let processed = barrels_processed r + barrels
                                           in Some (s\<lparr>nodes := (nodes s)[refinery :=
                                                (nodes s ! refinery)\<lparr>buildings_refinery := Some
                                                  (r\<lparr>barrels_processed := processed,
                                                     ref_utilization :=
                                                       processed / ref_capacity r\<rparr>)\<rparr>]\<rparr>))))
                       | _ \<Rightarrow> None)))"

definition route_step :: "nat \<Rightarrow> game_state \<Rightarrow> game_state option" where
  "route_step i s =
     (let demandNode = nodes s ! i
      in if \<not> truthy (current_demand demandNode) then Some s
         else (case findCheapestSupply (pathfinder s) (node_id demandNode) (global_oil_price s)
                      (TERMINAL_FEE (settings s)) (settings s) (nodes s) of
                 None \<Rightarrow> None
               | Some supplyRoute \<Rightarrow>
                   (let s = s\<lparr>nodes := (nodes s)[i :=
                                demandNode\<lparr>supply_source := Some supplyRoute\<rparr>]\<rparr>
                    in case supplyRoute of
                         Import _ _ \<Rightarrow> Some s
                       | PlayerSupply production refinery demand _ \<Rightarrow>
                           settle_route i production refinery demand s)))"

definition routeAndSatisfyDemand ::
  "production_entry list \<Rightarrow> game_state \<Rightarrow> game_state option" where
  "routeAndSatisfyDemand production s = for_each [0..<length (nodes s)] route_step s"

text \<open>
  \<^verbatim>\<open>TurnResolver.updateDemandGrowth\<close>; \<open>jitter i\<close> is the value of
  \<^verbatim>\<open>RandomUtils.normal(0, 0.01)\<close> drawn for the node at index \<open>i\<close>.
\<close>

definition updateDemandGrowth :: "(nat \<Rightarrow> jsnum) \<Rightarrow> game_state \<Rightarrow> game_state" where
  "updateDemandGrowth jitter s =
     s\<lparr>nodes := map (\<lambda>(i, nd).
           if truthy (demand_base nd)
           then (let actualGrowth = demand_growth_rate nd + jitter i
                 in nd\<lparr>demand_base := demand_base nd * (Num 1 + actualGrowth)\<rparr>)
           else nd) (enumerate 0 (nodes s))\<rparr>"

text \<open>\<^verbatim>\<open>GameState.saveState\<close>.\<close>

definition saveState :: "game_state \<Rightarrow> game_state" where
  "saveState s =
     s\<lparr>turnHistory := turnHistory s @
         [\<lparr> snap_turn = turn s, snap_globalPrice = global_oil_price s,
            snap_players = map (\<lambda>p. (player_id p, cash p, profit_this_turn p,
                                       cumulative_profit p)) (players s) \<rparr>]\<rparr>"

text \<open>
  \<^verbatim>\<open>TurnResolver.processTurn\<close>. The values a turn takes from outside are the two draws of
  the price walk and the jitter of each node; \<open>pw\<close> is \<^verbatim>\<open>Math.pow\<close>.
\<close>

record draws =
  crude_draw :: jsnum
  refined_draw :: jsnum
  growth_jitter :: "nat \<Rightarrow> jsnum"

definition processTurn ::
  "(jsnum \<Rightarrow> jsnum \<Rightarrow> jsnum) \<Rightarrow> draws \<Rightarrow> game_state \<Rightarrow> game_state option" where
  "processTurn pw dr s =
     (let s = s\<lparr>players := map reset_player (players s)\<rparr>;
          s = s\<lparr>nodes := map reset_node (nodes s)\<rparr>;
          s = s\<lparr>edges := map reset_edge (edges s)\<rparr>;
          s = updateGlobalPrice (crude_draw dr) (refined_draw dr) s
      in case productionPhase s of
           None \<Rightarrow> None
         | Some (production, s) \<Rightarrow>
             (case updateDemand pw s of
                None \<Rightarrow> None
              | Some s \<Rightarrow>
                  (case routeAndSatisfyDemand production s of
                     None \<Rightarrow> None
                   | Some s \<Rightarrow>
                       (let s = updateDemandGrowth (growth_jitter dr) s;
                            s = s\<lparr>players := calculatePlayerProfits (players s)\<rparr>;
                            s = s\<lparr>players := calculateMarketShare (players s)\<rparr>;
                            s = saveState s
                        in Some (s\<lparr>turn := turn s + 1\<rparr>)))))"

text \<open>
  Several turns in a row, each with its own draws: the list of the states after the first
  turn, after the second turn, and so on.
\<close>

fun play ::
  "(jsnum \<Rightarrow> jsnum \<Rightarrow> jsnum) \<Rightarrow> draws list \<Rightarrow> game_state \<Rightarrow> game_state list option" where
  "play pw [] s = Some []"
| "play pw (dr # drs) s =
     (case processTurn pw dr s of
        None \<Rightarrow> None
      | Some s' \<Rightarrow> map_option (\<lambda>rest. s' # rest) (play pw drs s'))"

section \<open>Build commands\<close>

text \<open>
  A command returns \<^verbatim>\<open>{ success: true }\<close> or \<^verbatim>\<open>{ success: false, error }\<close>; the model pairs
  this with the state the command leaves. \<open>None\<close> is a thrown \<^verbatim>\<open>TypeError\<close>: the player,
  node or edge index is outside its array, or the recomputation of the paths throws.
\<close>

datatype cmd_result = Success | Failure string

definition buildWell :: "game_state \<Rightarrow> nat \<Rightarrow> nat \<Rightarrow> (cmd_result \<times> game_state) option" where
  "buildWell s playerId nodeId =
     (if length (nodes s) \<le> nodeId then None
      else let node = nodes s ! nodeId
      in if \<not> truthy (production_capacity node)
         then Some (Failure ''Not a production node'', s)
         else if has_well node then Some (Failure ''Well already exists'', s)
         else if length (players s) \<le> playerId then None
         else let player = players s ! playerId
         in if cash player < well_build_cost node
            then Some (Failure ''Insufficient funds'', s)
            else Some (Success,
              s\<lparr>players := (players s)[playerId :=
                     player\<lparr>cash := cash player - well_build_cost node,
                            wells := wells player @ [nodeId]\<rparr>],
                 nodes := (nodes s)[nodeId :=
                     node\<lparr>has_well := True, well_owner := Some playerId\<rparr>]\<rparr>))"

definition buildPipeline :: "game_state \<Rightarrow> nat \<Rightarrow> nat \<Rightarrow> (cmd_result \<times> game_state) option" where
  "buildPipeline s playerId edgeId =
     (if length (edges s) \<le> edgeId then None
      else let edge = edges s ! edgeId
      in if pipe_owner (transportation_pipeline edge) \<noteq> None
         then Some (Failure ''Pipeline already exists'', s)
         else let cost = PIPELINE_COST_PER_EDGE (settings s)
         in if length (players s) \<le> playerId then None
            else let player = players s ! playerId
            in if cash player < cost then Some (Failure ''Insufficient funds'', s)
               else let s' = s\<lparr>players := (players s)[playerId :=
                                     player\<lparr>cash := cash player - cost,
                                            pipelines := pipelines player @ [edgeId]\<rparr>],
                                 edges := (edges s)[edgeId :=
                                     edge\<lparr>transportation_pipeline :=
                                       \<lparr> pipe_owner = Some playerId,
                                         pipe_capacity = PIPELINE_BASE_CAPACITY (settings s),
                                         pipe_fee = PIPELINE_DEFAULT_FEE (settings s),
                                         pipe_utilization = Num 0 \<rparr>\<rparr>]\<rparr>
                    in map_option (\<lambda>pf. (Success, s'\<lparr>pathfinder := pf\<rparr>))
                         (computeAllPaths (nodes s') (edges s')))"

definition buildRefinery :: "game_state \<Rightarrow> nat \<Rightarrow> nat \<Rightarrow> (cmd_result \<times> game_state) option" where
  "buildRefinery s playerId nodeId =
     (if length (nodes s) \<le> nodeId then None
      else let node = nodes s ! nodeId
      in if buildings_refinery node \<noteq> None
         then Some (Failure ''Refinery already exists'', s)
         else let cost = REFINERY_BUILD_COST (settings s)
         in if length (players s) \<le> playerId then None
            else let player = players s ! playerId
            in if cash player < cost then Some (Failure ''Insufficient funds'', s)
               else let s' = s\<lparr>players := (players s)[playerId :=
                                     player\<lparr>cash := cash player - cost,
                                            refineries := refineries player @ [nodeId]\<rparr>],
                                 nodes := (nodes s)[nodeId :=
                                     node\<lparr>buildings_refinery := Some
                                       \<lparr> ref_owner = playerId,
                                         ref_capacity = REFINERY_BASE_CAPACITY (settings s),
                                         ref_fee = Num 5, upgrade_level = 0,
                                         ref_utilization = Num 0,
                                         barrels_processed = Num 0 \<rparr>\<rparr>]\<rparr>
                    in map_option (\<lambda>pf. (Success, s'\<lparr>pathfinder := pf\<rparr>))
                         (computeAllPaths (nodes s') (edges s')))"

definition upgradeRefinery :: "game_state \<Rightarrow> nat \<Rightarrow> nat \<Rightarrow> (cmd_result \<times> game_state) option" where
  "upgradeRefinery s playerId nodeId =
     (if length (nodes s) \<le> nodeId then None
      else let node = nodes s ! nodeId
      in case buildings_refinery node of
           None \<Rightarrow> Some (Failure ''No refinery exists'', s)
         | Some r \<Rightarrow>
             if ref_owner r \<noteq> playerId then Some (Failure ''Not your refinery'', s)
             else let cost = REFINERY_BUILD_COST (settings s)
                               * REFINERY_UPGRADE_COST_MULTIPLIER (settings s)
             in if length (players s) \<le> playerId then None
                else let player = players s ! playerId
                in if cash player < cost then Some (Failure ''Insufficient funds'', s)
                   else Some (Success,
                     s\<lparr>players := (players s)[playerId := player\<lparr>cash := cash player - cost\<rparr>],
                        nodes := (nodes s)[nodeId :=
                            node\<lparr>buildings_refinery := Some
                              (r\<lparr>ref_capacity := ref_capacity r * Num 2,
                                 upgrade_level := upgrade_level r + 1\<rparr>)\<rparr>]\<rparr>))"

definition setPipelineFee ::
  "game_state \<Rightarrow> nat \<Rightarrow> nat \<Rightarrow> jsnum \<Rightarrow> (cmd_result \<times> game_state) option" where
  "setPipelineFee s playerId edgeId fee =
     (if length (edges s) \<le> edgeId then None
      else let edge = edges s ! edgeId
      in if pipe_owner (transportation_pipeline edge) \<noteq> Some playerId
         then Some (Failure ''Not your pipeline'', s)
         else let s' = s\<lparr>edges := (edges s)[edgeId :=
                               edge\<lparr>transportation_pipeline :=
                                 (transportation_pipeline edge)\<lparr>pipe_fee := fee\<rparr>\<rparr>]\<rparr>
              in map_option (\<lambda>pf. (Success, s'\<lparr>pathfinder := pf\<rparr>))
                   (computeAllPaths (nodes s') (edges s')))"

definition setRefineryFee ::
  "game_state \<Rightarrow> nat \<Rightarrow> nat \<Rightarrow> jsnum \<Rightarrow> (cmd_result \<times> game_state) option" where
  "setRefineryFee s playerId nodeId fee =
     (if length (nodes s) \<le> nodeId then None
      else let node = nodes s ! nodeId
      in case buildings_refinery node of
           None \<Rightarrow> Some (Failure ''Not your refinery'', s)
         | Some r \<Rightarrow>
             if ref_owner r \<noteq> playerId then Some (Failure ''Not your refinery'', s)
             else let s' = s\<lparr>nodes := (nodes s)[nodeId :=
                                   node\<lparr>buildings_refinery := Some (r\<lparr>ref_fee := fee\<rparr>)\<rparr>]\<rparr>
                  in map_option (\<lambda>pf. (Success, s'\<lparr>pathfinder := pf\<rparr>))
                       (computeAllPaths (nodes s') (edges s')))"

section \<open>Auxiliary definitions and example states\<close>

text \<open>The loop body of \<^verbatim>\<open>getWinner\<close>, named for the proofs.\<close>

definition winner_step :: "player \<Rightarrow> player \<Rightarrow> player" where
  "winner_step p winner = (if cumulative_profit winner < cumulative_profit p then p else winner)"

text \<open>
  The refined price after the walk and the clamp to \<open>[50, 200]\<close>, before the comparison
  with the crude price.
\<close>

definition clamped_refined :: "jsnum \<Rightarrow> game_state \<Rightarrow> jsnum" where
  "clamped_refined u2 s =
     Math_max (Num 50) (Math_min (Num 200)
       (randomWalk u2 (global_refined_price s) (PRICE_VOLATILITY (settings s))))"

definition example_player :: "nat \<Rightarrow> jsnum \<Rightarrow> player" where
  "example_player i c = \<lparr>
     player_id = i, cash = Num 50000000, wells = [], refineries = [], pipelines = [],
     revenue_this_turn = Num 0, costs_this_turn = Num 0, profit_this_turn = Num 0,
     profit_history = [], cumulative_profit = c, barrels_sold = Num 0,
     market_share = Num 0 \<rparr>"

definition empty_pathfinder :: pathfinder where
  "empty_pathfinder = \<lparr> pf_dist = [], pf_next = [] \<rparr>"

definition price_state :: "jsnum \<Rightarrow> jsnum \<Rightarrow> game_state" where
  "price_state crude refined = \<lparr>
     settings = GAME_SETTINGS, turn = 0, global_oil_price = refined,
     global_crude_price = crude, global_refined_price = refined,
     players = [], nodes = [], edges = [], pathfinder = empty_pathfinder,
     turnHistory = [] \<rparr>"

text \<open>
  A candidate route of \<^verbatim>\<open>findCheapestSupply\<close> for the demand node \<open>d\<close>: a node \<open>p\<close> with a
  well, a node \<open>r\<close> with a refinery, and the total landed cost \<open>tc\<close> the inner loop computes
  for the pair.
\<close>

definition candidate ::
  "pathfinder \<Rightarrow> game_settings \<Rightarrow> node list \<Rightarrow> nat \<Rightarrow> nat \<Rightarrow> nat \<Rightarrow> jsnum \<Rightarrow> bool" where
  "candidate pf st ns d p r tc =
     (p < length ns \<and> r < length ns \<and> has_well (ns ! p)
      \<and> (case buildings_refinery (ns ! r) of
            None \<Rightarrow> False
          | Some rf \<Rightarrow> totalCost pf st ns d p r rf = Some tc))"

text \<open>The invariant of the two loops on \<^verbatim>\<open>(cheapestCost, cheapestRoute)\<close>.\<close>

definition route_ok ::
  "pathfinder \<Rightarrow> game_settings \<Rightarrow> node list \<Rightarrow> nat \<Rightarrow> jsnum \<times> supply_route option \<Rightarrow> bool" where
  "route_ok pf st ns d acc =
     (case snd acc of
        None \<Rightarrow> fst acc = PInf
      | Some rt \<Rightarrow> fst acc \<noteq> PInf
          \<and> (\<exists>p r. rt = PlayerSupply p r d (fst acc) \<and> candidate pf st ns d p r (fst acc)))"

text \<open>
  Example network: four nodes in a chain, joined by truck-only edges of cost 3. Node 0
  has a well of player 0, node 1 a refinery of player 0, node 2 is a city and node 3 an
  import terminal.
\<close>

definition plain_node :: "nat \<Rightarrow> node" where
  "plain_node i = \<lparr> node_id = i, production_capacity = NaN, well_build_cost = NaN,
     operating_cost = NaN, has_well = False, well_owner = None, is_import_terminal = False,
     demand_base = Num 0, demand_growth_rate = Num 0, current_demand = Num 0,
     local_price = Num 0, supply_source = None, buildings_refinery = None \<rparr>"

definition truck_edge :: "nat \<Rightarrow> nat \<Rightarrow> nat \<Rightarrow> edge" where
  "truck_edge i a b = \<lparr> edge_id = i, node_a = a, node_b = b, truck_cost = Num 3,
     rail_available = False, rail_cost = Num 1,
     transportation_pipeline =
       \<lparr> pipe_owner = None, pipe_capacity = Num 0, pipe_fee = Num 0, pipe_utilization = Num 0 \<rparr>,
     flow_volume = Num 0 \<rparr>"

definition chain_edges :: "edge list" where
  "chain_edges = [truck_edge 0 0 1, truck_edge 1 1 2, truck_edge 2 2 3]"

definition chain_nodes :: "jsnum \<Rightarrow> jsnum \<Rightarrow> node list" where
  "chain_nodes op fee =
     [(plain_node 0)\<lparr>production_capacity := Num 100, well_build_cost := Num 5000000,
                     operating_cost := op, has_well := True, well_owner := Some 0\<rparr>,
      (plain_node 1)\<lparr>buildings_refinery := Some
         \<lparr> ref_owner = 0, ref_capacity = Num 100, ref_fee = fee, upgrade_level = 0,
           ref_utilization = Num 0, barrels_processed = Num 0 \<rparr>\<rparr>,
      (plain_node 2)\<lparr>demand_base := Num 50, current_demand := Num 50\<rparr>,
      (plain_node 3)\<lparr>is_import_terminal := True\<rparr>]"

definition chain_paths :: pathfinder where
  "chain_paths = \<lparr>
     pf_dist = [[Num 0, Num 3, Num 6, Num 9], [Num 3, Num 0, Num 3, Num 6],
                [Num 6, Num 3, Num 0, Num 3], [Num 9, Num 6, Num 3, Num 0]],
     pf_next = [[Some 0, Some 1, Some 1, Some 1], [Some 0, Some 1, Some 2, Some 2],
                [Some 1, Some 1, Some 2, Some 3], [Some 2, Some 2, Some 2, Some 3]] \<rparr>"

text \<open>
  The same chain with the truck costs 3, \<open>2^53\<close> and 2 on its three edges, and the
  pathfinder a rebuild computes for it.
\<close>

definition wide_edges :: "edge list" where
  "wide_edges =
     [truck_edge 0 0 1,
      (truck_edge 1 1 2)\<lparr>truck_cost := Num 9007199254740992\<rparr>,
      (truck_edge 2 2 3)\<lparr>truck_cost := Num 2\<rparr>]"

definition wide_paths :: pathfinder where
  "wide_paths =
     (case computeAllPaths (chain_nodes (Num 20) (Num 5)) wide_edges of
        Some pf \<Rightarrow> pf
      | None \<Rightarrow> empty_pathfinder)"

text \<open>
  A state in which every command fails: one player without cash, a production node
  without a well, a plain node, and one edge without a pipeline.
\<close>

definition broke_state :: game_state where
  "broke_state = \<lparr>
     settings = GAME_SETTINGS, turn = 0, global_oil_price = Num 100,
     global_crude_price = Num 70, global_refined_price = Num 100,
     players = [(example_player 0 (Num 0))\<lparr>cash := Num 0\<rparr>],
     nodes = [(plain_node 0)\<lparr>production_capacity := Num 100,
                well_build_cost := Num 5000000, operating_cost := Num 20\<rparr>,
              plain_node 1],
     edges = [truck_edge 0 0 1],
     pathfinder = \<lparr> pf_dist = [[Num 0, Num 3], [Num 3, Num 0]],
                    pf_next = [[Some 0, Some 1], [Some 0, Some 1]] \<rparr>,
     turnHistory = [] \<rparr>"

text \<open>
  Example game: the chain with a well of capacity 100 of player 0 at node 0, a refinery of
  capacity 100 of player 1 at node 1, and two cities of equal base demand at the nodes 1
  and 2. The draws of a quiet turn leave the prices where they are (\<^verbatim>\<open>Math.random()\<close> gives
  0.5 twice) and the jitter is 0, so that the price ratio is 1 and the only power a turn takes
  is \<^verbatim>\<open>Math.pow(1, 0.3)\<close>, which is 1.
\<close>

definition unit_pow :: "jsnum \<Rightarrow> jsnum \<Rightarrow> jsnum" where
  "unit_pow a b = (if a = Num 1 \<and> is_num b then Num 1 else NaN)"

definition quiet_draws :: draws where
  "quiet_draws = \<lparr> crude_draw = Num (1 / 2), refined_draw = Num (1 / 2),
                    growth_jitter = (\<lambda>i. Num 0) \<rparr>"

definition glut_nodes :: "node list" where
  "glut_nodes =
     [(plain_node 0)\<lparr>production_capacity := Num 100, well_build_cost := Num 5000000,
                     operating_cost := Num 20, has_well := True, well_owner := Some 0\<rparr>,
      (plain_node 1)\<lparr>buildings_refinery := Some
         \<lparr> ref_owner = 1, ref_capacity = Num 100, ref_fee = Num 5, upgrade_level = 0,
           ref_utilization = Num 0, barrels_processed = Num 0 \<rparr>,
         demand_base := Num 100, current_demand := Num 100\<rparr>,
      (plain_node 2)\<lparr>demand_base := Num 100, current_demand := Num 100\<rparr>,
      (plain_node 3)\<lparr>is_import_terminal := True\<rparr>]"

definition glut_state :: game_state where
  "glut_state = \<lparr>
     settings = GAME_SETTINGS, turn = 0, global_oil_price = Num 100,
     global_crude_price = Num 70, global_refined_price = Num 100,
     players = [example_player 0 (Num 0), example_player 1 (Num 0)],
     nodes = glut_nodes, edges = chain_edges, pathfinder = chain_paths,
     turnHistory = [] \<rparr>"

text \<open>
  The same game, in which player 1 raises the fee of the refinery to 200 after the first
  turn, so that in the second turn every city is supplied by import.
\<close>

definition fee_raise_game :: "game_state option" where
  "fee_raise_game =
     (case processTurn unit_pow quiet_draws glut_state of
        None \<Rightarrow> None
      | Some s1 \<Rightarrow>
          (case setRefineryFee s1 1 1 (Num 200) of
             Some (Success, s2) \<Rightarrow> processTurn unit_pow quiet_draws s2
           | _ \<Rightarrow> None))"

text \<open>Two quiet turns of the example game: the states after the first and the second turn.\<close>

definition glut_game :: "game_state list" where
  "glut_game =
     (case play unit_pow [quiet_draws, quiet_draws] glut_state of
        Some states \<Rightarrow> states
      | None \<Rightarrow> [])"


section \<open>Auxiliary definitions for the turn proofs\<close>

text \<open>
  The part of a player that only the profit settlement writes; the figures of a player
  that the settlement reads and writes; and the per-turn profits of player \<open>i\<close> in the
  first \<open>T\<close> turns, read from the states after these turns.
\<close>

definition ledger :: "player \<Rightarrow> jsnum \<times> jsnum \<times> jsnum list" where
  "ledger p = (cash p, cumulative_profit p, profit_history p)"

definition account ::
  "player \<Rightarrow> jsnum \<times> jsnum \<times> jsnum \<times> jsnum \<times> jsnum \<times> jsnum list" where
  "account p = (revenue_this_turn p, costs_this_turn p, profit_this_turn p,
                cumulative_profit p, cash p, profit_history p)"

definition per_turn_profits :: "game_state list \<Rightarrow> nat \<Rightarrow> nat \<Rightarrow> jsnum list" where
  "per_turn_profits states i T = map (\<lambda>t. profit_this_turn (players (states ! t) ! i)) [0..<T]"

text \<open>The sum of the barrels sold, as \<^verbatim>\<open>calculateMarketShare\<close> computes it.\<close>

definition totalBarrels :: "player list \<Rightarrow> jsnum" where
  "totalBarrels ps = foldl (\<lambda>sum p. sum + barrels_sold p) (Num 0) ps"

section \<open>Auxiliary definitions for the facts about numbers\<close>

text \<open>
  The exponent \<open>round64\<close> works with, the unit in the last place at this exponent, and the
  rounded real before the test for overflow.
\<close>

definition bexp :: "real \<Rightarrow> int" where
  "bexp x = max (expo \<bar>x\<bar>) (- 1022)"

definition ulp :: "real \<Rightarrow> real" where
  "ulp x = 2 powi (bexp x - 52)"

definition rnd :: "real \<Rightarrow> real" where
  "rnd x = of_int (rne (x / ulp x)) * ulp x"

section \<open>Auxiliary definitions for the pathfinder proofs\<close>

text \<open>
  A square matrix of side \<open>n\<close>; the distance part of a relaxation step, of a stage of the
  triple loop (one value of \<open>k\<close>) and of the whole loop.
\<close>

definition square :: "nat \<Rightarrow> 'a list list \<Rightarrow> bool" where
  "square n m = (length m = n \<and> (\<forall>i<n. length (m ! i) = n))"

definition relax_d :: "nat \<Rightarrow> nat \<Rightarrow> nat \<Rightarrow> jsnum list list \<Rightarrow> jsnum list list" where
  "relax_d k i j d =
     (if d ! i ! k + d ! k ! j < d ! i ! j then mset d i j (d ! i ! k + d ! k ! j) else d)"

definition stage_d :: "nat \<Rightarrow> nat \<Rightarrow> jsnum list list \<Rightarrow> jsnum list list" where
  "stage_d n k d = fold (\<lambda>i. fold (\<lambda>j. relax_d k i j) [0..<n]) [0..<n] d"

definition fw_d :: "nat \<Rightarrow> jsnum list list \<Rightarrow> jsnum list list" where
  "fw_d n d = fold (stage_d n) [0..<n] d"

text \<open>The value a cell holds after the relaxation through \<open>k\<close>.\<close>

definition relaxed :: "jsnum list list \<Rightarrow> nat \<Rightarrow> nat \<Rightarrow> nat \<Rightarrow> jsnum" where
  "relaxed d k i j = (if d ! i ! k + d ! k ! j < d ! i ! j then d ! i ! k + d ! k ! j else d ! i ! j)"

text \<open>
  The state of stage \<open>k\<close> when the rows before \<open>i\<close> and the cells of row \<open>i\<close> before column
  \<open>j\<close> have been relaxed.
\<close>

definition partly :: "nat \<Rightarrow> jsnum list list \<Rightarrow> nat \<Rightarrow> nat \<Rightarrow> nat \<Rightarrow> jsnum list list \<Rightarrow> bool" where
  "partly n d k i j c =
     (square n c \<and> (\<forall>a<n. \<forall>b<n.
        c ! a ! b = (if a < i \<or> (a = i \<and> b < j) then relaxed d k a b else d ! a ! b)))"

definition rlx :: "jsnum \<Rightarrow> jsnum \<Rightarrow> jsnum \<Rightarrow> jsnum" where
  "rlx x a b = (if a + b < x then a + b else x)"

text \<open>
  The invariant of the loops of the rebuild: a square, symmetric matrix of non-negative
  binary64 costs with a zero diagonal.
\<close>

definition half_metric :: "nat \<Rightarrow> jsnum list list \<Rightarrow> bool" where
  "half_metric n d =
     (square n d
      \<and> (\<forall>i<n. \<forall>j<n. Num 0 \<le> d ! i ! j \<and> is_double (d ! i ! j))
      \<and> (\<forall>i<n. d ! i ! i = Num 0)
      \<and> (\<forall>i<n. \<forall>j<n. d ! i ! j = d ! j ! i))"

text \<open>An edge all of whose available modes have a non-negative cost.\<close>

definition nonneg_edge :: "edge \<Rightarrow> bool" where
  "nonneg_edge e =
     (Num 0 \<le> truck_cost e
      \<and> (rail_available e \<longrightarrow> Num 0 \<le> rail_cost e)
      \<and> (pipe_owner (transportation_pipeline e) \<noteq> None
           \<longrightarrow> Num 0 \<le> pipe_fee (transportation_pipeline e)))"

text \<open>An edge whose costs are values of binary64, as every Number is.\<close>

definition double_edge :: "edge \<Rightarrow> bool" where
  "double_edge e =
     (is_double (truck_cost e) \<and> is_double (rail_cost e)
      \<and> is_double (pipe_fee (transportation_pipeline e)))"

text \<open>A cost that is a finite number or plus infinity.\<close>

definition proper :: "jsnum \<Rightarrow> bool" where
  "proper a = (a \<noteq> NaN \<and> a \<noteq> NInf)"

text \<open>
  The matrix \<open>d\<close> is entry by entry at most the matrix \<open>d'\<close>; no entry of them is NaN
  then.
\<close>

definition below :: "nat \<Rightarrow> jsnum list list \<Rightarrow> jsnum list list \<Rightarrow> bool" where
  "below n d d' =
     (square n d \<and> square n d' \<and> (\<forall>i<n. \<forall>j<n. d ! i ! j \<le> d' ! i ! j))"

text \<open>
  The smaller of an edge cost and a matrix entry, as the loop over the edges takes it; a
  matrix that is symmetric.
\<close>

definition mn :: "jsnum \<Rightarrow> jsnum \<Rightarrow> jsnum" where
  "mn c x = (if c < x then c else x)"

definition symmetric :: "nat \<Rightarrow> jsnum list list \<Rightarrow> bool" where
  "symmetric n d = (\<forall>i<n. \<forall>j<n. d ! i ! j = d ! j ! i)"

text \<open>The edge \<open>e'\<close> joins the same nodes as \<open>e\<close> and costs at most as much.\<close>

definition cheaper :: "edge \<Rightarrow> edge \<Rightarrow> bool" where
  "cheaper e' e =
     (node_a e' = node_a e \<and> node_b e' = node_b e
      \<and> proper (getEdgeCost e') \<and> proper (getEdgeCost e) \<and> getEdgeCost e' \<le> getEdgeCost e)"

text \<open>The relation kept by the loop over the edges of two graphs.\<close>

definition init_rel :: "nat \<Rightarrow> jsnum list list \<Rightarrow> jsnum list list \<Rightarrow> bool" where
  "init_rel n d' d = (below n d' d \<and> symmetric n d' \<and> symmetric n d)"

text \<open>The cost of an edge over its truck and rail modes, without the pipeline.\<close>

definition land_cost :: "edge \<Rightarrow> jsnum" where
  "land_cost e = (if rail_available e then Math_min (truck_cost e) (rail_cost e) else truck_cost e)"

text \<open>
  A state with the example network and one player with the starting capital, and the
  state after this player builds a pipeline on edge 1 (between the nodes 1 and 2).
\<close>

definition pipeline_state :: game_state where
  "pipeline_state = \<lparr>
     settings = GAME_SETTINGS, turn = 0, global_oil_price = Num 100,
     global_crude_price = Num 70, global_refined_price = Num 100,
     players = [example_player 0 (Num 0)],
     nodes = chain_nodes (Num 20) (Num 5),
     edges = chain_edges,
     pathfinder = chain_paths,
     turnHistory = [] \<rparr>"

definition after_pipeline :: game_state where
  "after_pipeline =
     (case buildPipeline pipeline_state 0 1 of
        Some (_, s') \<Rightarrow> s'
      | None \<Rightarrow> pipeline_state)"

section \<open>Facts about rounding\<close>

lemma dyadic_powi: "dyadic m k = of_int m * 2 powi k"
proof (cases "0 \<le> k")
  case True
  then show ?thesis by (simp add: dyadic_def power_int_nonneg_exp)
next
  case False
  then have "(2::real) powi k = 1 / 2 ^ nat (- k)"
    using power_int_minus_divide[of "2::real" "- k"] by (simp add: power_int_nonneg_exp)
  then show ?thesis using False by (simp add: dyadic_def)
qed

lemma rne_of_int [simp]: "rne (of_int n) = n"
  by (simp add: rne_def)

lemma rne_cases: "rne y = \<lfloor>y\<rfloor> \<or> rne y = \<lfloor>y\<rfloor> + 1"
  by (simp add: rne_def Let_def)

lemma rne_floor_le: "\<lfloor>y\<rfloor> \<le> rne y"
  using rne_cases[of y] by auto

lemma rne_le_ceiling: "rne y \<le> \<lceil>y\<rceil>"
proof (cases "y = of_int \<lfloor>y\<rfloor>")
  case True
  then have "rne y = \<lfloor>y\<rfloor>" by (metis rne_of_int)
  then show ?thesis by (simp add: floor_le_ceiling)
next
  case False
  then have "\<lceil>y\<rceil> = \<lfloor>y\<rfloor> + 1" by (simp add: ceiling_altdef)
  then show ?thesis using rne_cases[of y] by auto
qed

lemma rne_frac:
  "rne y = \<lfloor>y\<rfloor> + (if 1 / 2 < frac y \<or> (frac y = 1 / 2 \<and> odd \<lfloor>y\<rfloor>) then 1 else 0)"
proof -
  consider "frac y < 1 / 2" | "1 / 2 < frac y" | "frac y = 1 / 2" by linarith
  then show ?thesis
  proof cases
    case 1
    then show ?thesis by (simp add: rne_def Let_def frac_def)
  next
    case 2
    then show ?thesis by (simp add: rne_def Let_def frac_def)
  next
    case 3
    then show ?thesis by (simp add: rne_def Let_def frac_def)
  qed
qed

lemma rne_mono:
  assumes "x \<le> y"
  shows "rne x \<le> rne y"
proof (cases "\<lfloor>x\<rfloor> = \<lfloor>y\<rfloor>")
  case True
  have fr: "frac x \<le> frac y" using assms True by (simp add: frac_def)
  have "1 / 2 < frac y \<or> (frac y = 1 / 2 \<and> odd \<lfloor>y\<rfloor>)"
    if "1 / 2 < frac x \<or> (frac x = 1 / 2 \<and> odd \<lfloor>x\<rfloor>)"
  proof (cases "frac y = 1 / 2")
    case True
    then have "frac x = 1 / 2" using that fr by linarith
    then have "odd \<lfloor>x\<rfloor>" using that by simp
    then show ?thesis using True \<open>\<lfloor>x\<rfloor> = \<lfloor>y\<rfloor>\<close> by simp
  next
    case False
    then show ?thesis using that fr by linarith
  qed
  then show ?thesis by (simp add: rne_frac True)
next
  case False
  then have lt: "\<lfloor>x\<rfloor> < \<lfloor>y\<rfloor>" using floor_mono[OF assms] by simp
  have "rne x \<le> \<lfloor>x\<rfloor> + 1" using rne_cases[of x] by auto
  also have "\<dots> \<le> \<lfloor>y\<rfloor>" using lt by simp
  also have "\<dots> \<le> rne y" by (rule rne_floor_le)
  finally show ?thesis .
qed

lemma rne_minus: "rne (- y) = - rne y"
proof (cases "y \<in> \<int>")
  case True
  then obtain n where y: "y = of_int n" by (auto elim: Ints_cases)
  have "rne (- y) = - n" unfolding y using rne_of_int[of "- n"] by simp
  then show ?thesis by (simp add: y)
next
  case False
  have fl: "\<lfloor>- y\<rfloor> = - \<lfloor>y\<rfloor> - 1"
  proof -
    have "y \<noteq> of_int \<lfloor>y\<rfloor>" using False by (metis Ints_of_int)
    then show ?thesis by (simp add: floor_minus ceiling_altdef)
  qed
  have fr: "frac (- y) = 1 - frac y" using False by (simp add: frac_neg)
  have ev: "odd (- \<lfloor>y\<rfloor> - 1) = even \<lfloor>y\<rfloor>" by simp
  consider "frac y < 1 / 2" | "1 / 2 < frac y" | "frac y = 1 / 2" by linarith
  then show ?thesis
  proof cases
    case 1
    then show ?thesis by (simp add: rne_frac fl fr)
  next
    case 2
    then show ?thesis by (simp add: rne_frac fl fr)
  next
    case 3
    then show ?thesis by (simp add: rne_frac fl fr)
  qed
qed

lemma expo_bounds:
  assumes "0 < x"
  shows "2 powi expo x \<le> x" and "x < 2 powi (expo x + 1)"
proof -
  have "2 powi expo x \<le> x \<and> x < 2 powi (expo x + 1)"
  proof (cases "1 \<le> x")
    case True
    let ?n = "\<lfloor>x\<rfloor>" and ?b = "bitlen \<lfloor>x\<rfloor>"
    have n: "0 < ?n" using True by simp
    have b: "1 \<le> ?b" using n by (simp add: bitlen_alt_def)
    have e: "expo x = ?b - 1" using True by (simp add: expo_def)
    from bitlen_bounds[OF n] have lo: "2 ^ nat (?b - 1) \<le> ?n" and hi: "?n + 1 \<le> 2 ^ nat ?b"
      by simp_all
    have "(2::real) powi (?b - 1) = of_int (2 ^ nat (?b - 1))"
      using b by (simp add: power_int_nonneg_exp)
    also have "\<dots> \<le> of_int ?n" using lo by (simp only: of_int_le_iff)
    also have "\<dots> \<le> x" by simp
    finally have 1: "2 powi (?b - 1) \<le> x" .
    have "x < of_int (?n + 1)" by simp
    also have "\<dots> \<le> of_int (2 ^ nat ?b)" using hi by (simp only: of_int_le_iff)
    also have "\<dots> = (2::real) powi ?b" using b by (simp add: power_int_nonneg_exp)
    finally have 2: "x < 2 powi ?b" .
    show ?thesis using 1 2 by (simp add: e)
  next
    case False
    let ?n = "\<lceil>1 / x\<rceil>" and ?b = "bitlen (\<lceil>1 / x\<rceil> - 1)"
    have y: "1 < 1 / x" using False assms by simp
    have n: "0 < ?n - 1" using y by (simp add: less_ceiling_iff)
    have b: "1 \<le> ?b" using n by (simp add: bitlen_alt_def)
    have e: "expo x = - ?b" using False assms by (simp add: expo_def)
    from bitlen_bounds[OF n] have lo: "2 ^ nat (?b - 1) \<le> ?n - 1" and hi: "?n \<le> 2 ^ nat ?b"
      by simp_all
    have "1 / x \<le> of_int ?n" by simp
    also have "\<dots> \<le> of_int (2 ^ nat ?b)" using hi by (simp only: of_int_le_iff)
    finally have "1 / x \<le> 2 ^ nat ?b" by simp
    then have "1 / 2 ^ nat ?b \<le> x" using assms by (simp add: field_simps)
    moreover have "(2::real) powi (- ?b) = 1 / 2 ^ nat ?b"
      using b by (simp add: power_int_minus_divide power_int_nonneg_exp)
    ultimately have 1: "2 powi (- ?b) \<le> x" by simp
    have "of_int (2 ^ nat (?b - 1)) \<le> (of_int (?n - 1) :: real)"
      using lo by (simp only: of_int_le_iff)
    also have "\<dots> < 1 / x" by (simp add: ceiling_correct)
    finally have "2 ^ nat (?b - 1) < 1 / x" by simp
    then have "x < 1 / 2 ^ nat (?b - 1)" using assms by (simp add: field_simps)
    moreover have "(2::real) powi (- ?b + 1) = 1 / 2 ^ nat (?b - 1)"
      using b power_int_minus_divide[of "2::real" "?b - 1"] by (simp add: power_int_nonneg_exp)
    ultimately have 2: "x < 2 powi (- ?b + 1)" by simp
    show ?thesis using 1 2 by (simp add: e)
  qed
  then show "2 powi expo x \<le> x" and "x < 2 powi (expo x + 1)" by simp_all
qed

lemma expo_unique:
  assumes "2 powi e \<le> x" "x < 2 powi (e + 1)"
  shows "expo x = e"
proof -
  have "0 < (2::real) powi e" by simp
  then have x: "0 < x" using assms(1) by linarith
  note b = expo_bounds[OF x]
  have "\<not> expo x < e"
  proof
    assume "expo x < e"
    then have "(2::real) powi (expo x + 1) \<le> 2 powi e" by (intro power_int_increasing) simp_all
    then show False using b(2) assms(1) by linarith
  qed
  moreover have "\<not> e < expo x"
  proof
    assume "e < expo x"
    then have "(2::real) powi (e + 1) \<le> 2 powi expo x" by (intro power_int_increasing) simp_all
    then show False using b(1) assms(2) by linarith
  qed
  ultimately show ?thesis by simp
qed

lemma expo_mono:
  assumes "0 < x" "x \<le> y"
  shows "expo x \<le> expo y"
proof (rule ccontr)
  assume "\<not> expo x \<le> expo y"
  then have "(2::real) powi (expo y + 1) \<le> 2 powi expo x" by (intro power_int_increasing) simp_all
  moreover have "0 < y" using assms by simp
  ultimately show False
    using expo_bounds(1)[OF assms(1)] expo_bounds(2)[of y] assms(2) by linarith
qed

lemma ulp_pos [simp]: "0 < ulp x"
  by (simp add: ulp_def)

lemma ulp_nonneg [simp]: "0 \<le> ulp x"
  by (simp add: ulp_def)

lemma ulp_neq_0 [simp]: "ulp x \<noteq> 0"
  by (simp add: ulp_def)

lemma rne_0 [simp]: "rne 0 = 0"
  by (simp add: rne_def)

lemma ulp_minus [simp]: "ulp (- x) = ulp x"
  by (simp add: ulp_def bexp_def)

lemma rnd_minus: "rnd (- x) = - rnd x"
  by (simp add: rnd_def rne_minus)

lemma rnd_0 [simp]: "rnd 0 = 0"
  by (simp add: rnd_def)

lemma binade_lo: "2 powi bexp x = 2 ^ 52 * ulp x"
proof -
  have "(2::real) powi (52 + (bexp x - 52)) = 2 powi 52 * 2 powi (bexp x - 52)"
    by (rule power_int_add) simp
  then show ?thesis by (simp add: ulp_def)
qed

lemma binade_hi: "2 powi (bexp x + 1) = 2 ^ 53 * ulp x"
proof -
  have "(2::real) powi (53 + (bexp x - 52)) = 2 powi 53 * 2 powi (bexp x - 52)"
    by (rule power_int_add) simp
  moreover have "53 + (bexp x - 52) = bexp x + 1" by simp
  ultimately show ?thesis by (simp add: ulp_def)
qed

lemma below_binade:
  assumes "0 < x"
  shows "x < 2 ^ 53 * ulp x"
proof -
  have "x < 2 powi (expo x + 1)" by (rule expo_bounds(2)[OF assms])
  also have "\<dots> \<le> 2 powi (bexp x + 1)"
    using assms by (intro power_int_increasing) (simp_all add: bexp_def)
  finally show ?thesis by (simp only: binade_hi)
qed

lemma normal_binade:
  assumes "0 < x" "- 1022 \<le> expo x"
  shows "bexp x = expo x" and "2 ^ 52 * ulp x \<le> x"
proof -
  show e: "bexp x = expo x" using assms by (simp add: bexp_def)
  have "2 powi bexp x \<le> x" using expo_bounds(1)[OF assms(1)] by (simp only: e)
  then show "2 ^ 52 * ulp x \<le> x" by (simp only: binade_lo)
qed

lemma rnd_nonneg:
  assumes "0 \<le> x"
  shows "0 \<le> rnd x"
proof -
  have "0 \<le> x / ulp x" by (rule divide_nonneg_pos[OF assms ulp_pos])
  then have "rne 0 \<le> rne (x / ulp x)" by (rule rne_mono)
  then have "0 \<le> rne (x / ulp x)" by simp
  then show ?thesis by (simp add: rnd_def)
qed

lemma rnd_le_binade:
  assumes "0 < x"
  shows "rnd x \<le> 2 ^ 53 * ulp x"
proof -
  have "x / ulp x \<le> of_int (2 ^ 53)"
    using below_binade[OF assms] by (simp add: field_simps)
  then have "rne (x / ulp x) \<le> rne (of_int (2 ^ 53))" by (rule rne_mono)
  then have "rne (x / ulp x) \<le> 2 ^ 53" by (simp only: rne_of_int)
  then have "(of_int (rne (x / ulp x)) :: real) \<le> of_int (2 ^ 53)" by (simp only: of_int_le_iff)
  then show ?thesis by (simp add: rnd_def)
qed

lemma rnd_ge_binade:
  assumes "0 < x" "- 1022 \<le> expo x"
  shows "2 ^ 52 * ulp x \<le> rnd x"
proof -
  have "of_int (2 ^ 52) \<le> x / ulp x"
    using normal_binade(2)[OF assms] by (simp add: field_simps)
  then have "rne (of_int (2 ^ 52)) \<le> rne (x / ulp x)" by (rule rne_mono)
  then have "2 ^ 52 \<le> rne (x / ulp x)" by (simp only: rne_of_int)
  then have "(of_int (2 ^ 52) :: real) \<le> of_int (rne (x / ulp x))" by (simp only: of_int_le_iff)
  then show ?thesis by (simp add: rnd_def)
qed

lemma rnd_mono_pos:
  assumes "0 < x" "x \<le> y"
  shows "rnd x \<le> rnd y"
proof -
  have y: "0 < y" using assms by simp
  have le: "bexp x \<le> bexp y" using expo_mono[of x y] assms by (simp add: bexp_def)
  show ?thesis
  proof (cases "bexp x = bexp y")
    case True
    then have u: "ulp x = ulp y" by (simp add: ulp_def)
    have "x / ulp y \<le> y / ulp y" by (rule divide_right_mono[OF assms(2) ulp_nonneg])
    then have "rne (x / ulp y) \<le> rne (y / ulp y)" by (rule rne_mono)
    then show ?thesis by (simp add: rnd_def u)
  next
    case False
    then have lt: "bexp x + 1 \<le> bexp y" using le by simp
    then have n: "- 1022 \<le> expo y" using y by (simp add: bexp_def)
    have "rnd x \<le> 2 ^ 53 * ulp x" by (rule rnd_le_binade[OF assms(1)])
    also have "\<dots> = 2 powi (bexp x + 1)" by (simp only: binade_hi)
    also have "\<dots> \<le> 2 powi bexp y" using lt by (intro power_int_increasing) simp_all
    also have "\<dots> = 2 ^ 52 * ulp y" by (simp only: binade_lo)
    also have "\<dots> \<le> rnd y" by (rule rnd_ge_binade[OF y n])
    finally show ?thesis .
  qed
qed

lemma rnd_mono:
  assumes "x \<le> y"
  shows "rnd x \<le> rnd y"
proof -
  consider "0 < x" | "x \<le> 0" "0 \<le> y" | "y < 0" using assms by linarith
  then show ?thesis
  proof cases
    case 1
    then show ?thesis using assms by (rule rnd_mono_pos)
  next
    case 2
    have "rnd x \<le> 0" using rnd_nonneg[of "- x"] 2(1) by (simp add: rnd_minus)
    moreover have "0 \<le> rnd y" using 2(2) by (rule rnd_nonneg)
    ultimately show ?thesis by simp
  next
    case 3
    have "rnd (- y) \<le> rnd (- x)" using 3 assms by (intro rnd_mono_pos) simp_all
    then show ?thesis by (simp add: rnd_minus)
  qed
qed

lemma rnd_abs: "\<bar>rnd x\<bar> = rnd \<bar>x\<bar>"
proof (cases "0 \<le> x")
  case True
  then show ?thesis using rnd_nonneg[of x] by simp
next
  case False
  then have "0 \<le> rnd (- x)" by (intro rnd_nonneg) simp
  then show ?thesis using False by (simp add: rnd_minus)
qed

lemma rne_abs: "\<bar>rne y\<bar> = rne \<bar>y\<bar>"
proof (cases "0 \<le> y")
  case True
  then have "rne 0 \<le> rne y" by (rule rne_mono)
  then show ?thesis using True by simp
next
  case False
  then have "rne 0 \<le> rne (- y)" by (intro rne_mono) simp
  then show ?thesis using False by (simp add: rne_minus)
qed

lemma bexp_abs [simp]: "bexp \<bar>x\<bar> = bexp x"
  by (simp add: bexp_def)

lemma ulp_abs [simp]: "ulp \<bar>x\<bar> = ulp x"
  by (simp add: ulp_def)

lemma finite_iff_pos:
  assumes "0 < a"
  shows "(bexp a < 1023 \<or> (bexp a = 1023 \<and> rne (a / ulp a) < 2 ^ 53)) = (rnd a < 2 powi 1024)"
proof -
  consider "bexp a < 1023" | "bexp a = 1023" "rne (a / ulp a) < 2 ^ 53"
    | "bexp a = 1023" "2 ^ 53 \<le> rne (a / ulp a)" | "1024 \<le> bexp a"
    by linarith
  then show ?thesis
  proof cases
    case 1
    have "rnd a \<le> 2 ^ 53 * ulp a" by (rule rnd_le_binade[OF assms])
    also have "\<dots> = 2 powi (bexp a + 1)" by (simp only: binade_hi)
    also have "\<dots> < 2 powi 1024" using 1 by (intro power_int_strict_increasing) simp_all
    finally show ?thesis using 1 by simp
  next
    case 2
    have "(of_int (rne (a / ulp a)) :: real) < of_int (2 ^ 53)"
      using 2(2) by (simp only: of_int_less_iff)
    then have "rnd a < 2 ^ 53 * ulp a" by (simp add: rnd_def)
    also have "\<dots> = 2 powi (bexp a + 1)" by (simp only: binade_hi)
    finally show ?thesis using 2 by simp
  next
    case 3
    have "(of_int (2 ^ 53) :: real) \<le> of_int (rne (a / ulp a))"
      using 3(2) by (simp only: of_int_le_iff)
    then have "2 ^ 53 * ulp a \<le> rnd a" by (simp add: rnd_def)
    moreover have "2 ^ 53 * ulp a = 2 powi (bexp a + 1)" by (simp only: binade_hi)
    ultimately have "\<not> rnd a < 2 powi 1024" using 3(1) by simp
    then show ?thesis using 3 by simp
  next
    case 4
    then have n: "- 1022 \<le> expo a" using assms by (simp add: bexp_def)
    have "(2::real) powi 1024 \<le> 2 powi bexp a" using 4 by (intro power_int_increasing) simp_all
    also have "\<dots> = 2 ^ 52 * ulp a" by (simp only: binade_lo)
    also have "\<dots> \<le> rnd a" by (rule rnd_ge_binade[OF assms n])
    finally have "\<not> rnd a < 2 powi 1024" by simp
    then show ?thesis using 4 by simp
  qed
qed

lemma round64_rnd:
  "round64 x = (if \<bar>rnd x\<bar> < 2 powi 1024 then Num (rnd x) else if 0 < x then PInf else NInf)"
proof -
  have u: "dyadic 1 (bexp x - 52) = ulp x" by (simp add: dyadic_powi ulp_def)
  have r: "dyadic (rne (x / ulp x)) (bexp x - 52) = rnd x" by (simp add: dyadic_powi ulp_def rnd_def)
  have c: "(bexp x < 1023 \<or> (bexp x = 1023 \<and> \<bar>rne (x / ulp x)\<bar> < 9007199254740992))
      = (\<bar>rnd x\<bar> < 2 powi 1024)"
  proof (cases "x = 0")
    case True
    then show ?thesis by (simp add: bexp_def expo_def)
  next
    case False
    then have a: "0 < \<bar>x\<bar>" by simp
    have "\<bar>rne (x / ulp x)\<bar> = rne (\<bar>x\<bar> / ulp \<bar>x\<bar>)" by (simp add: rne_abs)
    then show ?thesis using finite_iff_pos[OF a] by (simp add: rnd_abs)
  qed
  show ?thesis
    unfolding round64_def Let_def bexp_def[symmetric] u r c by (rule refl)
qed

lemma rnd_multiple:
  assumes "x = of_int j * ulp x"
  shows "rnd x = x"
proof -
  have "of_int j * ulp x / ulp x = (of_int j :: real)" by simp
  then have "x / ulp x = of_int j" using assms by simp
  then show ?thesis using assms by (simp add: rnd_def)
qed

lemma rnd_dyadic_pos:
  assumes "0 < m" "m \<le> 2 ^ 53" "- 1074 \<le> k"
  shows "rnd (of_int m * 2 powi k) = of_int m * 2 powi k"
proof -
  let ?y = "of_int m * (2::real) powi k"
  have y: "0 < ?y" using assms(1) by simp
  show ?thesis
  proof (cases "m = 2 ^ 53")
    case True
    have "(2::real) powi (53 + k) = 2 powi 53 * 2 powi k" by (rule power_int_add) simp
    then have yp: "?y = 2 powi (k + 53)" using True by (simp add: add.commute)
    have "(2::real) powi (k + 53) < 2 powi (k + 53 + 1)"
      by (intro power_int_strict_increasing) simp_all
    then have e: "expo ?y = k + 53" by (intro expo_unique) (simp_all add: yp)
    have b: "bexp ?y = k + 53" using e assms(3) y by (simp add: bexp_def)
    have "2 powi bexp ?y = 2 ^ 52 * ulp ?y" by (rule binade_lo)
    then have "?y = of_int (2 ^ 52) * ulp ?y" using yp b by simp
    then show ?thesis by (rule rnd_multiple)
  next
    case False
    then have "m + 1 \<le> 2 ^ 53" using assms(2) by simp
    then have "(of_int (m + 1) :: real) \<le> of_int (2 ^ 53)" by (simp only: of_int_le_iff)
    then have "(of_int m :: real) < 2 ^ 53" by simp
    then have "?y < 2 ^ 53 * 2 powi k" by simp
    moreover have "(2::real) powi (53 + k) = 2 powi 53 * 2 powi k" by (rule power_int_add) simp
    ultimately have lt: "?y < 2 powi (k + 53)" by (simp add: add.commute)
    have "expo ?y < k + 53"
    proof (rule ccontr)
      assume "\<not> expo ?y < k + 53"
      then have "(2::real) powi (k + 53) \<le> 2 powi expo ?y"
        by (intro power_int_increasing) simp_all
      then show False using expo_bounds(1)[OF y] lt by linarith
    qed
    moreover have "\<bar>?y\<bar> = ?y" using y by simp
    ultimately have b: "bexp ?y \<le> k + 52" using assms(3) by (simp add: bexp_def)
    define j where "j = nat (k + 52 - bexp ?y)"
    have "k = int j + (bexp ?y - 52)" using b by (simp add: j_def)
    then have "(2::real) powi k = 2 powi (int j) * 2 powi (bexp ?y - 52)"
      using power_int_add[of "2::real" "int j" "bexp ?y - 52"] by simp
    then have "?y = of_int (m * 2 ^ j) * ulp ?y" by (simp add: ulp_def)
    then show ?thesis by (rule rnd_multiple)
  qed
qed

lemma rnd_dyadic:
  assumes "\<bar>m\<bar> \<le> 2 ^ 53" "- 1074 \<le> k"
  shows "rnd (of_int m * 2 powi k) = of_int m * 2 powi k"
proof -
  consider "0 < m" | "m = 0" | "m < 0" by linarith
  then show ?thesis
  proof cases
    case 1
    then show ?thesis using assms by (intro rnd_dyadic_pos) simp_all
  next
    case 2
    then show ?thesis by simp
  next
    case 3
    then have "rnd (of_int (- m) * 2 powi k) = of_int (- m) * 2 powi k"
      using assms by (intro rnd_dyadic_pos) simp_all
    then show ?thesis using rnd_minus[of "of_int m * 2 powi k"] by simp
  qed
qed

lemma rnd_idem: "rnd (rnd x) = rnd x"
proof -
  have pos: "rnd (rnd a) = rnd a" if "0 < a" for a
  proof -
    have "rne 0 \<le> rne (a / ulp a)" using that by (intro rne_mono) simp
    then have m0: "0 \<le> rne (a / ulp a)" by simp
    have "rnd a \<le> 2 ^ 53 * ulp a" by (rule rnd_le_binade[OF that])
    then have "(of_int (rne (a / ulp a)) :: real) \<le> of_int (2 ^ 53)"
      using ulp_pos[of a] by (simp add: rnd_def)
    then have "rne (a / ulp a) \<le> 2 ^ 53" by (simp only: of_int_le_iff)
    then have m1: "\<bar>rne (a / ulp a)\<bar> \<le> 2 ^ 53" using m0 by simp
    have k: "- 1074 \<le> bexp a - 52" by (simp add: bexp_def)
    show ?thesis
      using rnd_dyadic[OF m1 k] by (simp add: rnd_def ulp_def)
  qed
  consider "0 < x" | "x = 0" | "x < 0" by linarith
  then show ?thesis
  proof cases
    case 1
    then show ?thesis by (rule pos)
  next
    case 2
    then show ?thesis by simp
  next
    case 3
    then have "rnd (rnd (- x)) = rnd (- x)" by (intro pos) simp
    then show ?thesis using rnd_minus[of "rnd x"] by (simp add: rnd_minus)
  qed
qed

lemma round64_Num_iff: "(round64 x = Num y) = (\<bar>rnd x\<bar> < 2 powi 1024 \<and> y = rnd x)"
  by (auto simp: round64_rnd)

lemma round64_idem:
  assumes "round64 x = Num y"
  shows "round64 y = Num y"
  using assms by (simp add: round64_Num_iff rnd_idem)

lemma round64_of_int:
  assumes "\<bar>n\<bar> \<le> 2 ^ 53"
  shows "round64 (of_int n) = Num (of_int n)"
proof -
  have r: "rnd (of_int n) = of_int n" using rnd_dyadic[OF assms, of 0] by simp
  have "\<bar>of_int n :: real\<bar> = of_int \<bar>n\<bar>" by simp
  also have "\<dots> \<le> of_int (2 ^ 53)" using assms by (simp only: of_int_le_iff)
  also have "\<dots> < 2 powi 1024" by simp
  finally show ?thesis by (simp add: round64_Num_iff r)
qed

lemma round64_minus:
  "round64 (- x) = (case round64 x of Num y \<Rightarrow> Num (- y) | PInf \<Rightarrow> NInf | NInf \<Rightarrow> PInf | NaN \<Rightarrow> NaN)"
proof (cases "x = 0")
  case True
  then show ?thesis by (simp add: round64_rnd)
next
  case False
  then show ?thesis by (auto simp: round64_rnd rnd_minus)
qed

section \<open>Facts about JavaScript numbers\<close>

lemma is_num_conv: "is_num a = (\<exists>r. a = Num r)"
  by (cases a) auto

lemma js_less_irrefl: "\<not> (a::jsnum) < a"
  by (cases a) auto

lemma js_less_trans: "(a::jsnum) < b \<Longrightarrow> b < c \<Longrightarrow> a < c"
  by (cases a; cases b; cases c) auto

lemma js_le_refl: "a \<noteq> NaN \<Longrightarrow> (a::jsnum) \<le> a"
  by (simp add: less_eq_jsnum_def)

lemma js_le_less_trans: "(a::jsnum) \<le> b \<Longrightarrow> b < c \<Longrightarrow> a < c"
  by (auto simp: less_eq_jsnum_def intro: js_less_trans)

lemma js_less_le_trans: "(a::jsnum) < b \<Longrightarrow> b \<le> c \<Longrightarrow> a < c"
  by (auto simp: less_eq_jsnum_def intro: js_less_trans)

lemma js_le_trans: "(a::jsnum) \<le> b \<Longrightarrow> b \<le> c \<Longrightarrow> a \<le> c"
  by (auto simp: less_eq_jsnum_def intro: js_less_trans)

lemma js_less_imp_le: "(a::jsnum) < b \<Longrightarrow> a \<le> b"
  by (simp add: less_eq_jsnum_def)

lemma js_not_less: "a \<noteq> NaN \<Longrightarrow> b \<noteq> NaN \<Longrightarrow> \<not> (a::jsnum) < b \<Longrightarrow> b \<le> a"
  by (cases a; cases b) (auto simp: less_eq_jsnum_def)

lemma js_le_not_NaN: "(a::jsnum) \<le> b \<Longrightarrow> a \<noteq> NaN \<and> b \<noteq> NaN"
  by (cases a; cases b) (auto simp: less_eq_jsnum_def)

lemma js_le_Num [simp]: "(Num a \<le> Num b) = (a \<le> b)"
  by (auto simp: less_eq_jsnum_def)

lemma js_le_PInf [simp]: "(a \<le> PInf) = (a \<noteq> NaN)"
  by (cases a) (auto simp: less_eq_jsnum_def)

lemma js_NInf_le [simp]: "(NInf \<le> a) = (a \<noteq> NaN)"
  by (cases a) (auto simp: less_eq_jsnum_def)

lemma Math_min_Num [simp]: "Math_min (Num a) (Num b) = Num (min a b)"
  by (simp add: Math_min_def min_def)

lemma Math_max_Num [simp]: "Math_max (Num a) (Num b) = Num (max a b)"
  by (simp add: Math_max_def max_def)

lemma round64_not_NaN [simp]: "round64 x \<noteq> NaN"
  by (simp add: round64_rnd)

lemma round64_0 [simp]: "round64 0 = Num 0"
  by (simp add: round64_rnd)

lemma rnd_sign:
  shows "0 < rnd x \<Longrightarrow> 0 < x" and "rnd x < 0 \<Longrightarrow> x < 0"
proof -
  show "0 < x" if "0 < rnd x"
  proof (rule ccontr)
    assume "\<not> 0 < x"
    then have "rnd x \<le> rnd 0" by (intro rnd_mono) simp
    then show False using that by simp
  qed
  show "x < 0" if "rnd x < 0"
  proof (rule ccontr)
    assume "\<not> x < 0"
    then have "rnd 0 \<le> rnd x" by (intro rnd_mono) simp
    then show False using that by simp
  qed
qed

lemma round64_cases:
  obtains (fin) "\<bar>rnd x\<bar> < 2 powi 1024" "round64 x = Num (rnd x)"
  | (pos) "2 powi 1024 \<le> rnd x" "round64 x = PInf"
  | (neg) "rnd x \<le> - (2 powi 1024)" "round64 x = NInf"
proof (cases "\<bar>rnd x\<bar> < 2 powi 1024")
  case True
  then show ?thesis using fin by (simp add: round64_rnd)
next
  case False
  have p: "(0::real) < 2 powi 1024" by simp
  show ?thesis
  proof (cases "0 < x")
    case True
    then have "0 \<le> rnd x" by (intro rnd_nonneg) simp
    then have "2 powi 1024 \<le> rnd x" using False by simp
    then show ?thesis using pos False True by (simp add: round64_rnd)
  next
    case x: False
    have "\<not> 0 < rnd x" using rnd_sign(1)[of x] x by blast
    then have "rnd x \<le> - (2 powi 1024)" using False by simp
    then show ?thesis using neg False x by (simp add: round64_rnd)
  qed
qed

lemma round64_mono:
  assumes "x \<le> y"
  shows "round64 x \<le> round64 y"
proof -
  note m = rnd_mono[OF assms]
  have p: "(0::real) < 2 powi 1024" by simp
  show ?thesis
  proof (cases x rule: round64_cases)
    case fin
    show ?thesis
    proof (cases y rule: round64_cases)
      case f: fin
      then show ?thesis using fin m by simp
    next
      case pos
      then show ?thesis using fin by simp
    next
      case neg
      then show ?thesis using fin m by simp
    qed
  next
    case pos
    then have "2 powi 1024 \<le> rnd y" using m by simp
    then have "round64 y = PInf" using p by (cases y rule: round64_cases) simp_all
    then show ?thesis using pos by simp
  next
    case neg
    then show ?thesis by simp
  qed
qed

lemma round64_nonneg: "0 \<le> x \<Longrightarrow> Num 0 \<le> round64 x"
  using round64_mono[of 0 x] by simp

lemma is_double_round64 [simp]: "is_double (round64 x)"
proof (cases "round64 x")
  case (Num y)
  then show ?thesis using round64_idem[of x y] by simp
qed simp_all

lemma js_add_commute: "(a::jsnum) + b = b + a"
  by (cases a; cases b) (simp_all add: add.commute)

lemma is_double_add [simp]: "is_double (a + b)"
  by (cases a; cases b) simp_all

lemma is_double_times [simp]: "is_double (a * b)"
  by (cases a; cases b) simp_all

lemma add_zero_right: "is_double a \<Longrightarrow> a + Num 0 = a"
  by (cases a) simp_all

lemma add_zero_left: "is_double a \<Longrightarrow> Num 0 + a = a"
  by (cases a) simp_all

lemma is_double_of_int: "\<bar>n\<bar> \<le> 2 ^ 53 \<Longrightarrow> is_double (Num (of_int n))"
  by (simp add: round64_of_int)

section \<open>The price update\<close>

text \<open>
  C8. The claim is that after the price update the crude price lies in \<open>[30, 150]\<close> and
  the refined price is not below the crude price, for every prior price state. The state
  the constructor of \<^verbatim>\<open>GameState\<close> builds has no crude and no refined price, and the update
  computes \<^verbatim>\<open>undefined * (1 + change)\<close>, which is NaN; \<^verbatim>\<open>Math.min\<close> and \<^verbatim>\<open>Math.max\<close> keep
  NaN, and the comparison of the refined with the crude price is false. So whatever the
  two draws are, both prices are NaN after the update, and neither bound holds.
\<close>

theorem updateGlobalPrice_after_constructor:
  "global_crude_price (updateGlobalPrice u1 u2 (new_GameState GAME_SETTINGS)) = NaN
   \<and> global_refined_price (updateGlobalPrice u1 u2 (new_GameState GAME_SETTINGS)) = NaN
   \<and> \<not> Num 30 \<le> global_crude_price (updateGlobalPrice u1 u2 (new_GameState GAME_SETTINGS))
   \<and> \<not> global_crude_price (updateGlobalPrice u1 u2 (new_GameState GAME_SETTINGS)) \<le> Num 150
   \<and> \<not> global_crude_price (updateGlobalPrice u1 u2 (new_GameState GAME_SETTINGS))
         \<le> global_refined_price (updateGlobalPrice u1 u2 (new_GameState GAME_SETTINGS))"
  by (simp add: updateGlobalPrice_def new_GameState_def randomWalk_def Math_min_def Math_max_def
      Let_def less_eq_jsnum_def)

section \<open>The winner\<close>

lemma fold_winner:
  assumes "cumulative_profit w \<noteq> NaN" "\<forall>x\<in>set xs. cumulative_profit x \<noteq> NaN"
  shows "(fold winner_step xs w = w \<and> (\<forall>j<length xs. cumulative_profit (xs ! j) \<le> cumulative_profit w))
       \<or> (\<exists>i<length xs. fold winner_step xs w = xs ! i
            \<and> cumulative_profit w < cumulative_profit (xs ! i)
            \<and> (\<forall>j<length xs. cumulative_profit (xs ! j) \<le> cumulative_profit (xs ! i))
            \<and> (\<forall>j<i. cumulative_profit (xs ! j) < cumulative_profit (xs ! i)))"
  using assms
proof (induction xs arbitrary: w)
  case Nil
  then show ?case by simp
next
  case (Cons x xs)
  let ?c = cumulative_profit
  have nx: "?c x \<noteq> NaN" and nxs: "\<forall>y\<in>set xs. ?c y \<noteq> NaN" using Cons.prems by auto
  show ?case
  proof (cases "?c w < ?c x")
    case True
    then have ws: "winner_step x w = x" by (simp add: winner_step_def)
    from Cons.IH[OF nx nxs] show ?thesis
    proof (elim disjE exE conjE, goal_cases)
      case 1
      have "\<forall>j<length (x # xs). ?c ((x # xs) ! j) \<le> ?c x"
        using 1(2) nx by (auto simp: nth_Cons js_le_refl split: nat.splits)
      then have "0 < length (x # xs) \<and> fold winner_step (x # xs) w = (x # xs) ! 0
            \<and> ?c w < ?c ((x # xs) ! 0)
            \<and> (\<forall>j<length (x # xs). ?c ((x # xs) ! j) \<le> ?c ((x # xs) ! 0))
            \<and> (\<forall>j<0. ?c ((x # xs) ! j) < ?c ((x # xs) ! 0))"
        using 1(1) True ws by simp
      then show ?case by (intro disjI2 exI[of _ 0])
    next
      case (2 i)
      have a: "\<forall>j<length (x # xs). ?c ((x # xs) ! j) \<le> ?c ((x # xs) ! Suc i)"
        using 2(3,4) by (auto simp: nth_Cons js_less_imp_le split: nat.splits)
      have b: "\<forall>j<Suc i. ?c ((x # xs) ! j) < ?c ((x # xs) ! Suc i)"
        using 2(3,5) by (auto simp: nth_Cons split: nat.splits)
      have c: "?c w < ?c ((x # xs) ! Suc i)"
        using js_less_trans[OF True 2(3)] by simp
      have "Suc i < length (x # xs) \<and> fold winner_step (x # xs) w = (x # xs) ! Suc i"
        using 2(1,2) ws by simp
      with a b c show ?case by blast
    qed
  next
    case False
    then have ws: "winner_step x w = w" by (simp add: winner_step_def)
    have xw: "?c x \<le> ?c w" using False Cons.prems(1) nx by (simp add: js_not_less)
    from Cons.IH[OF Cons.prems(1) nxs] show ?thesis
    proof (elim disjE exE conjE, goal_cases)
      case 1
      have "\<forall>j<length (x # xs). ?c ((x # xs) ! j) \<le> ?c w"
        using 1(2) xw by (auto simp: nth_Cons split: nat.splits)
      then show ?case using ws 1(1) by simp
    next
      case (2 i)
      have x_lt: "?c x < ?c (xs ! i)" using xw 2(3) by (rule js_le_less_trans)
      have a: "\<forall>j<length (x # xs). ?c ((x # xs) ! j) \<le> ?c ((x # xs) ! Suc i)"
        using 2(4) x_lt by (auto simp: nth_Cons js_less_imp_le split: nat.splits)
      have b: "\<forall>j<Suc i. ?c ((x # xs) ! j) < ?c ((x # xs) ! Suc i)"
        using 2(5) x_lt by (auto simp: nth_Cons split: nat.splits)
      have "Suc i < length (x # xs) \<and> fold winner_step (x # xs) w = (x # xs) ! Suc i
          \<and> ?c w < ?c ((x # xs) ! Suc i)"
        using 2(1,2,3) ws by simp
      with a b show ?case by blast
    qed
  qed
qed

text \<open>
  C10. For a non-empty list of players (whose cumulative profits are numbers, not NaN),
  \<^verbatim>\<open>getWinner\<close> returns a player of the list whose cumulative profit is maximal, and every
  player before it in the list has a strictly smaller cumulative profit: among tied
  players the one with the lowest index wins.
\<close>

theorem getWinner_maximal_lowest_index:
  assumes "ps \<noteq> []" "\<forall>p\<in>set ps. cumulative_profit p \<noteq> NaN"
  shows "\<exists>i<length ps. getWinner ps = Some (ps ! i)
           \<and> (\<forall>j<length ps. cumulative_profit (ps ! j) \<le> cumulative_profit (ps ! i))
           \<and> (\<forall>j<i. cumulative_profit (ps ! j) < cumulative_profit (ps ! i))"
proof -
  obtain p0 rest where ps: "ps = p0 # rest" using assms(1) by (cases ps) auto
  have gw: "getWinner ps = Some (fold winner_step ps p0)"
    unfolding getWinner_def ps winner_step_def by simp
  have p0: "p0 = ps ! 0" using ps by simp
  have n0: "cumulative_profit p0 \<noteq> NaN" using assms(2) ps by simp
  from fold_winner[OF n0 assms(2)]
  show ?thesis
  proof (elim disjE exE conjE, goal_cases)
    case 1
    have "0 < length ps \<and> getWinner ps = Some (ps ! 0)
        \<and> (\<forall>j<length ps. cumulative_profit (ps ! j) \<le> cumulative_profit (ps ! 0))
        \<and> (\<forall>j<0. cumulative_profit (ps ! j) < cumulative_profit (ps ! 0))"
      using 1 gw assms(1) p0 by simp
    then show ?case by (intro exI[of _ 0])
  next
    case (2 i)
    then show ?case using gw by auto
  qed
qed

theorem getWinner_maximal_lowest_index_witness:
  "[example_player 0 (Num 5), example_player 1 (Num 9), example_player 2 (Num 9)] \<noteq> []
   \<and> cumulative_profit (example_player 0 (Num 5)) \<noteq> NaN
   \<and> cumulative_profit (example_player 1 (Num 9)) \<noteq> NaN
   \<and> cumulative_profit (example_player 2 (Num 9)) \<noteq> NaN
   \<and> getWinner [example_player 0 (Num 5), example_player 1 (Num 9), example_player 2 (Num 9)]
       = Some (example_player 1 (Num 9))"
  using getWinner_maximal_lowest_index
    [of "[example_player 0 (Num 5), example_player 1 (Num 9), example_player 2 (Num 9)]"]
  by (simp add: getWinner_def example_player_def)

section \<open>Failed commands\<close>

text \<open>
  C9. For each of the commands build well, build pipeline, build refinery, upgrade
  refinery, set pipeline fee and set refinery fee, and every game state: when the command
  returns a failure, the state it leaves is the state it was called in.
\<close>

theorem failed_command_unchanged:
  "(buildWell s playerId nodeId = Some (Failure msg, s') \<longrightarrow> s' = s)
   \<and> (buildPipeline s playerId edgeId = Some (Failure msg, s') \<longrightarrow> s' = s)
   \<and> (buildRefinery s playerId nodeId = Some (Failure msg, s') \<longrightarrow> s' = s)
   \<and> (upgradeRefinery s playerId nodeId = Some (Failure msg, s') \<longrightarrow> s' = s)
   \<and> (setPipelineFee s playerId edgeId fee = Some (Failure msg, s') \<longrightarrow> s' = s)
   \<and> (setRefineryFee s playerId nodeId fee = Some (Failure msg, s') \<longrightarrow> s' = s)"
proof (intro conjI impI)
  assume "buildWell s playerId nodeId = Some (Failure msg, s')"
  then show "s' = s"
    by (auto simp: buildWell_def Let_def split: if_splits)
next
  assume "buildPipeline s playerId edgeId = Some (Failure msg, s')"
  then show "s' = s"
    by (auto simp: buildPipeline_def Let_def split: if_splits)
next
  assume "buildRefinery s playerId nodeId = Some (Failure msg, s')"
  then show "s' = s"
    by (auto simp: buildRefinery_def Let_def split: if_splits)
next
  assume "upgradeRefinery s playerId nodeId = Some (Failure msg, s')"
  then show "s' = s"
    by (auto simp: upgradeRefinery_def Let_def split: if_splits option.splits)
next
  assume "setPipelineFee s playerId edgeId fee = Some (Failure msg, s')"
  then show "s' = s"
    by (auto simp: setPipelineFee_def Let_def split: if_splits)
next
  assume "setRefineryFee s playerId nodeId fee = Some (Failure msg, s')"
  then show "s' = s"
    by (auto simp: setRefineryFee_def Let_def split: if_splits option.splits)
qed

theorem failed_command_unchanged_witness:
  "buildWell broke_state 0 0 = Some (Failure ''Insufficient funds'', broke_state)
   \<and> buildPipeline broke_state 0 0 = Some (Failure ''Insufficient funds'', broke_state)
   \<and> buildRefinery broke_state 0 1 = Some (Failure ''Insufficient funds'', broke_state)
   \<and> upgradeRefinery broke_state 0 1 = Some (Failure ''No refinery exists'', broke_state)
   \<and> setPipelineFee broke_state 0 0 (Num 1) = Some (Failure ''Not your pipeline'', broke_state)
   \<and> setRefineryFee broke_state 0 1 (Num 1) = Some (Failure ''Not your refinery'', broke_state)"
  using failed_command_unchanged
    [of broke_state 0 0 "''Insufficient funds''" broke_state 0 "Num 1"]
  by (simp add: buildWell_def buildPipeline_def buildRefinery_def upgradeRefinery_def
      setPipelineFee_def setRefineryFee_def broke_state_def example_player_def plain_node_def
      truck_edge_def GAME_SETTINGS_def truthy_def Let_def)

section \<open>The cheapest supply\<close>

lemma for_each_min:
  fixes cost :: "'s \<Rightarrow> jsnum"
  assumes "for_each xs body s = Some s'" "cost s \<noteq> NaN" "I s"
    and step: "\<And>x a b. x \<in> set xs \<Longrightarrow> body x a = Some b \<Longrightarrow> cost a \<noteq> NaN \<Longrightarrow> I a
                 \<Longrightarrow> cost b \<noteq> NaN \<and> cost b \<le> cost a \<and> I b \<and> P x (cost b)"
    and down: "\<And>x c c'. P x c \<Longrightarrow> c' \<le> c \<Longrightarrow> P x c'"
  shows "cost s' \<noteq> NaN \<and> cost s' \<le> cost s \<and> I s' \<and> (\<forall>x\<in>set xs. P x (cost s'))"
  using assms(1,2,3) step
proof (induction xs arbitrary: s)
  case Nil
  then show ?case by (simp add: js_le_refl)
next
  case (Cons x xs)
  from Cons.prems(1) obtain a where a: "body x s = Some a" "for_each xs body a = Some s'"
    by (auto split: option.splits)
  have sa: "cost a \<noteq> NaN \<and> cost a \<le> cost s \<and> I a \<and> P x (cost a)"
    using Cons.prems(4)[of x s a] a(1) Cons.prems(2,3) by simp
  have step': "body y u = Some v \<Longrightarrow> cost u \<noteq> NaN \<Longrightarrow> I u
      \<Longrightarrow> cost v \<noteq> NaN \<and> cost v \<le> cost u \<and> I v \<and> P y (cost v)"
    if "y \<in> set xs" for y u v
    using Cons.prems(4)[of y u v] that by simp
  have ih: "cost s' \<noteq> NaN \<and> cost s' \<le> cost a \<and> I s' \<and> (\<forall>y\<in>set xs. P y (cost s'))"
    by (rule Cons.IH[OF a(2)]) (use sa step' in blast)+
  have "cost s' \<le> cost s" using ih sa js_le_trans by blast
  moreover have "P x (cost s')" using down sa ih by blast
  ultimately show ?case using ih by simp
qed

lemma try_route_step:
  assumes "try_route pf st ns d p r a = Some b" "fst a \<noteq> NaN" "route_ok pf st ns d a"
    "p < length ns" "r < length ns" "has_well (ns ! p)"
  shows "fst b \<noteq> NaN \<and> fst b \<le> fst a \<and> route_ok pf st ns d b
       \<and> (\<forall>tc. candidate pf st ns d p r tc \<longrightarrow> tc \<noteq> NaN \<longrightarrow> fst b \<le> tc)"
proof (cases "buildings_refinery (ns ! r)")
  case None
  then show ?thesis using assms by (auto simp: try_route_def candidate_def js_le_refl)
next
  case (Some rf)
  then obtain tc where tc: "totalCost pf st ns d p r rf = Some tc"
    using assms(1) by (auto simp: try_route_def split: option.splits)
  have cand: "candidate pf st ns d p r tc' = (tc' = tc)" for tc'
    using assms(4,5,6) Some tc by (auto simp: candidate_def)
  show ?thesis
  proof (cases "tc < fst a")
    case True
    then have b: "b = (tc, Some (PlayerSupply p r d tc))"
      using assms(1) Some tc by (simp add: try_route_def)
    have n: "tc \<noteq> NaN" "tc \<noteq> PInf" using True by (cases tc; cases "fst a"; auto)+
    show ?thesis using True n cand
      by (auto simp: b route_ok_def js_less_imp_le js_le_refl)
  next
    case False
    then have b: "b = a" using assms(1) Some tc by (simp add: try_route_def)
    show ?thesis using False assms(2,3) cand
      by (auto simp: b js_le_refl js_not_less)
  qed
qed

lemma cheapest_route_min:
  assumes "cheapest_route pf st ns d = Some (c, rt)"
  shows "c \<noteq> NaN \<and> route_ok pf st ns d (c, rt)
       \<and> (\<forall>p r tc. candidate pf st ns d p r tc \<longrightarrow> tc \<noteq> NaN \<longrightarrow> c \<le> tc)"
proof -
  let ?P = "\<lambda>p c. \<forall>r tc. candidate pf st ns d p r tc \<longrightarrow> tc \<noteq> NaN \<longrightarrow> c \<le> tc"
  let ?body = "\<lambda>prodId acc. if \<not> has_well (ns ! prodId) then Some acc
          else for_each [0..<length ns] (try_route pf st ns d prodId) acc"
  have run: "for_each [0..<length ns] ?body (PInf, None) = Some (c, rt)"
    using assms by (simp add: cheapest_route_def)
  have step: "fst b \<noteq> NaN \<and> fst b \<le> fst a \<and> route_ok pf st ns d b \<and> ?P p (fst b)"
    if "p \<in> set [0..<length ns]" "?body p a = Some b" "fst a \<noteq> NaN" "route_ok pf st ns d a"
    for p a b
  proof (cases "has_well (ns ! p)")
    case False
    then show ?thesis using that by (auto simp: candidate_def js_le_refl)
  next
    case True
    have p: "p < length ns" using that(1) by simp
    have inner: "for_each [0..<length ns] (try_route pf st ns d p) a = Some b"
      using that(2) True by simp
    have "fst b \<noteq> NaN \<and> fst b \<le> fst a \<and> route_ok pf st ns d b
        \<and> (\<forall>r\<in>set [0..<length ns].
              \<forall>tc. candidate pf st ns d p r tc \<longrightarrow> tc \<noteq> NaN \<longrightarrow> fst b \<le> tc)"
    proof (rule for_each_min[where cost = fst and I = "route_ok pf st ns d"
          and P = "\<lambda>r c. \<forall>tc. candidate pf st ns d p r tc \<longrightarrow> tc \<noteq> NaN \<longrightarrow> c \<le> tc",
          OF inner that(3,4)], goal_cases)
      case (1 r u v)
      then show ?case using try_route_step[of pf st ns d p r u v] p True by simp
    next
      case (2 r c c')
      then show ?case using js_le_trans by blast
    qed
    then show ?thesis by (auto simp: candidate_def)
  qed
  have "fst (c, rt) \<noteq> NaN \<and> fst (c, rt) \<le> fst (PInf, None::supply_route option)
      \<and> route_ok pf st ns d (c, rt) \<and> (\<forall>p\<in>set [0..<length ns]. ?P p (fst (c, rt)))"
  proof (rule for_each_min[where cost = fst and I = "route_ok pf st ns d" and P = ?P,
        OF run], goal_cases)
    case 1
    then show ?case by simp
  next
    case 2
    then show ?case by (simp add: route_ok_def)
  next
    case (3 p a b)
    then show ?case using step[of p a b] by blast
  next
    case (4 p c c')
    then show ?case using js_le_trans by blast
  qed
  then show ?thesis by (auto simp: candidate_def)
qed

lemma chain_paths_computed:
  "computeAllPaths (chain_nodes op fee) chain_edges = Some chain_paths"
  unfolding chain_nodes_def by code_simp

text \<open>
  C5. When \<^verbatim>\<open>findCheapestSupply\<close> returns a supply option for a consumption node, the cost
  of the option is at most the import price of that node (the global price plus the
  terminal fee plus the transport cost from the nearest terminal, as
  \<^verbatim>\<open>calculateLocalPrice\<close> computes it; it is assumed not to be NaN). In particular a player
  route is returned only with a total landed cost that is at most the import price, and it
  is the route of a well and a refinery for this consumption node.
\<close>

theorem findCheapestSupply_at_most_import:
  assumes "findCheapestSupply pf d globalPrice terminalFee st ns = Some r"
    and "calculateLocalPrice pf d globalPrice terminalFee ns = Some importPrice"
    and "importPrice \<noteq> NaN"
  shows "supply_cost r \<le> importPrice
       \<and> (\<forall>p rf dd c. r = PlayerSupply p rf dd c \<longrightarrow>
             c \<le> importPrice \<and> dd = d \<and> candidate pf st ns d p rf c)"
proof -
  obtain c rt where cr: "cheapest_route pf st ns d = Some (c, rt)"
    using assms(1,2) by (cases "cheapest_route pf st ns d") (auto simp: findCheapestSupply_def)
  note m = cheapest_route_min[OF cr]
  show ?thesis
  proof (cases "importPrice < c")
    case True
    then obtain t where "r = Import importPrice t"
      using assms(1,2) cr by (auto simp: findCheapestSupply_def)
    then show ?thesis using assms(3) by (simp add: js_le_refl)
  next
    case False
    then have le: "c \<le> importPrice" using m assms(3) by (simp add: js_not_less)
    show ?thesis
    proof (cases rt)
      case None
      then obtain t where "r = Import importPrice t"
        using assms(1,2) cr False by (auto simp: findCheapestSupply_def)
      then show ?thesis using assms(3) by (simp add: js_le_refl)
    next
      case (Some route)
      then have "r = route" using assms(1,2) cr False by (simp add: findCheapestSupply_def)
      moreover obtain p rf where "route = PlayerSupply p rf d c" "candidate pf st ns d p rf c"
        using m Some by (auto simp: route_ok_def)
      ultimately show ?thesis using le by simp
    qed
  qed
qed

theorem findCheapestSupply_at_most_import_witness:
  "findCheapestSupply chain_paths 2 (Num 100) (Num 5) GAME_SETTINGS (chain_nodes (Num 20) (Num 5))
     = Some (PlayerSupply 0 1 2 (Num 41))
   \<and> calculateLocalPrice chain_paths 2 (Num 100) (Num 5) (chain_nodes (Num 20) (Num 5))
     = Some (Num 108)
   \<and> Num 108 \<noteq> NaN \<and> Num 41 \<le> Num 108"
proof -
  have run: "findCheapestSupply chain_paths 2 (Num 100) (Num 5) GAME_SETTINGS
        (chain_nodes (Num 20) (Num 5)) = Some (PlayerSupply 0 1 2 (Num 41))"
    and price: "calculateLocalPrice chain_paths 2 (Num 100) (Num 5) (chain_nodes (Num 20) (Num 5))
        = Some (Num 108)"
    by code_simp+
  from findCheapestSupply_at_most_import [OF run price] run price
  show ?thesis by simp
qed

text \<open>
  C6, as the code has it. \<^verbatim>\<open>findCheapestSupply\<close> returns an option that is cheapest: its
  cost is at most the import price and at most the total cost of every candidate route.
  The comparison with the import price is strict, so a tie goes to the player route: when
  some candidate route has a total cost that is not infinite and is at most the import
  price, a player route is returned; the import option is returned when every candidate
  costs strictly more than the import price (or has no finite cost).
\<close>

theorem findCheapestSupply_cheapest_tie_player:
  assumes "findCheapestSupply pf d globalPrice terminalFee st ns = Some r"
    and "calculateLocalPrice pf d globalPrice terminalFee ns = Some importPrice"
    and "importPrice \<noteq> NaN"
  shows "supply_cost r \<le> importPrice
       \<and> (\<forall>p rf tc. candidate pf st ns d p rf tc \<longrightarrow> tc \<noteq> NaN \<longrightarrow> supply_cost r \<le> tc)
       \<and> ((\<exists>p rf tc. candidate pf st ns d p rf tc \<and> tc \<le> importPrice \<and> tc \<noteq> PInf)
            \<longrightarrow> (\<exists>p rf. r = PlayerSupply p rf d (supply_cost r)
                         \<and> candidate pf st ns d p rf (supply_cost r)))
       \<and> ((\<forall>p rf tc. candidate pf st ns d p rf tc \<longrightarrow> importPrice < tc \<or> tc = NaN \<or> tc = PInf)
            \<longrightarrow> (\<exists>t. r = Import importPrice t))"
proof -
  obtain c rt where cr: "cheapest_route pf st ns d = Some (c, rt)"
    using assms(1,2) by (cases "cheapest_route pf st ns d") (auto simp: findCheapestSupply_def)
  note m = cheapest_route_min[OF cr]
  have cN: "c \<noteq> NaN" and ok: "route_ok pf st ns d (c, rt)"
    and mn: "\<And>p rf tc. candidate pf st ns d p rf tc \<Longrightarrow> tc \<noteq> NaN \<Longrightarrow> c \<le> tc"
    using m by blast+
  consider (imp) "importPrice < c" | (route) route where "\<not> importPrice < c" "rt = Some route"
    | (none) "\<not> importPrice < c" "rt = None"
    by (cases rt) auto
  then show ?thesis
  proof cases
    case imp
    then obtain t where r: "r = Import importPrice t"
      using assms(1,2) cr by (auto simp: findCheapestSupply_def)
    have a: "supply_cost r \<le> tc" if "candidate pf st ns d p rf tc" "tc \<noteq> NaN" for p rf tc
      using js_less_le_trans[OF imp mn[OF that]] by (simp add: r js_less_imp_le)
    have b: "\<not> (candidate pf st ns d p rf tc \<and> tc \<le> importPrice \<and> tc \<noteq> PInf)" for p rf tc
    proof
      assume h: "candidate pf st ns d p rf tc \<and> tc \<le> importPrice \<and> tc \<noteq> PInf"
      then have "tc \<noteq> NaN" by (auto simp: less_eq_jsnum_def)
      then have "c \<le> tc" using mn h by blast
      then have "c \<le> importPrice" using h js_le_trans by blast
      then show False using imp js_le_less_trans js_less_irrefl by blast
    qed
    show ?thesis using a b r assms(3) by (auto simp: js_le_refl)
  next
    case route
    then have r: "r = route" using assms(1,2) cr by (simp add: findCheapestSupply_def)
    obtain p rf where pr: "route = PlayerSupply p rf d c" "candidate pf st ns d p rf c" "c \<noteq> PInf"
      using ok route(2) by (auto simp: route_ok_def)
    have le: "c \<le> importPrice" using route(1) cN assms(3) by (simp add: js_not_less)
    have "\<not> importPrice < c \<and> c \<noteq> NaN \<and> c \<noteq> PInf" using route(1) cN pr(3) by simp
    then have d: "\<not> (\<forall>p rf tc. candidate pf st ns d p rf tc \<longrightarrow> importPrice < tc \<or> tc = NaN \<or> tc = PInf)"
      using pr(2) by blast
    show ?thesis using le mn pr d by (auto simp: r)
  next
    case none
    then obtain t where r: "r = Import importPrice t"
      using assms(1,2) cr by (auto simp: findCheapestSupply_def)
    have cP: "c = PInf" using ok none(2) by (simp add: route_ok_def)
    have iP: "importPrice = PInf" using none(1) assms(3) cP by (cases importPrice) auto
    have a: "supply_cost r \<le> tc" if "candidate pf st ns d p rf tc" "tc \<noteq> NaN" for p rf tc
      using mn[OF that] by (simp add: r cP iP)
    have b: "\<not> (candidate pf st ns d p rf tc \<and> tc \<le> importPrice \<and> tc \<noteq> PInf)" for p rf tc
    proof
      assume h: "candidate pf st ns d p rf tc \<and> tc \<le> importPrice \<and> tc \<noteq> PInf"
      then have "tc \<noteq> NaN" by (auto simp: less_eq_jsnum_def)
      then have "PInf \<le> tc" using mn h cP by blast
      then show False using h by (cases tc) (auto simp: less_eq_jsnum_def)
    qed
    show ?thesis using a b r assms(3) by (auto simp: js_le_refl)
  qed
qed

theorem findCheapestSupply_cheapest_tie_player_witness:
  "findCheapestSupply chain_paths 2 (Num 100) (Num 5) GAME_SETTINGS (chain_nodes (Num 60) (Num 40))
     = Some (Import (Num 108) (Some 3))
   \<and> calculateLocalPrice chain_paths 2 (Num 100) (Num 5) (chain_nodes (Num 60) (Num 40))
     = Some (Num 108)
   \<and> Num 108 \<noteq> NaN
   \<and> candidate chain_paths GAME_SETTINGS (chain_nodes (Num 60) (Num 40)) 2 0 1 (Num 116)"
proof -
  have run: "findCheapestSupply chain_paths 2 (Num 100) (Num 5) GAME_SETTINGS
        (chain_nodes (Num 60) (Num 40)) = Some (Import (Num 108) (Some 3))"
    and price: "calculateLocalPrice chain_paths 2 (Num 100) (Num 5) (chain_nodes (Num 60) (Num 40))
        = Some (Num 108)"
    and cand: "candidate chain_paths GAME_SETTINGS (chain_nodes (Num 60) (Num 40)) 2 0 1 (Num 116)"
    by code_simp+
  from findCheapestSupply_cheapest_tie_player [OF run price] run price cand
  show ?thesis by simp
qed

text \<open>
  The claim as the specification states it, that a tie returns the import option, fails:
  with a well of operating cost 60 and a refinery fee of 32 the player route costs
  \<open>60 + 3 + 10 + 32 + 3 = 108\<close>, the import price is \<open>100 + 5 + 3 = 108\<close>, and the player
  route is returned.
\<close>

theorem findCheapestSupply_tie_counterexample:
  "computeAllPaths (chain_nodes (Num 60) (Num 32)) chain_edges = Some chain_paths
   \<and> calculateLocalPrice chain_paths 2 (Num 100) (Num 5) (chain_nodes (Num 60) (Num 32))
     = Some (Num 108)
   \<and> candidate chain_paths GAME_SETTINGS (chain_nodes (Num 60) (Num 32)) 2 0 1 (Num 108)
   \<and> findCheapestSupply chain_paths 2 (Num 100) (Num 5) GAME_SETTINGS
       (chain_nodes (Num 60) (Num 32)) = Some (PlayerSupply 0 1 2 (Num 108))"
  by code_simp

section \<open>The distance matrix after a rebuild\<close>

lemma mset_nth:
  "square n m \<Longrightarrow> i < n \<Longrightarrow> j < n \<Longrightarrow> a < n \<Longrightarrow> b < n
     \<Longrightarrow> mset m i j v ! a ! b = (if a = i \<and> b = j then v else m ! a ! b)"
  by (auto simp: mset_def square_def nth_list_update)

lemma mset_square: "square n m \<Longrightarrow> square n (mset m i j v)"
  by (cases "i < length m") (auto simp: mset_def square_def nth_list_update)

lemma pf_dist_fold:
  assumes "\<And>x pf. pf_dist (f x pf) = g x (pf_dist pf)"
  shows "pf_dist (fold f xs pf) = fold g xs (pf_dist pf)"
  by (induction xs arbitrary: pf) (simp_all add: assms)

lemma pf_dist_relax: "pf_dist (relax k i j pf) = relax_d k i j (pf_dist pf)"
  by (simp add: relax_def relax_d_def Let_def)

lemma pf_dist_floyd_warshall: "pf_dist (floyd_warshall n pf) = fw_d n (pf_dist pf)"
  unfolding floyd_warshall_def fw_d_def stage_d_def
  by (intro pf_dist_fold pf_dist_relax)

text \<open>Numbers that are finite or plus infinity, and those of them that are not negative.\<close>

lemma nonneg_cases:
  assumes "Num 0 \<le> a"
  obtains r where "a = Num r" "0 \<le> r" | "a = PInf"
  using assms by (cases a) (auto simp: less_eq_jsnum_def)

lemma nonneg_add: "Num 0 \<le> a \<Longrightarrow> Num 0 \<le> b \<Longrightarrow> Num 0 \<le> a + b"
  by (elim nonneg_cases) (simp_all add: round64_nonneg)

lemma nonneg_not_less_zero: "Num 0 \<le> a \<Longrightarrow> \<not> a < Num 0"
  by (elim nonneg_cases) auto

lemma relaxed_col: "d ! k ! k = Num 0 \<Longrightarrow> is_double (d ! i ! k) \<Longrightarrow> relaxed d k i k = d ! i ! k"
  by (simp add: relaxed_def js_less_irrefl add_zero_right)

lemma relaxed_row: "d ! k ! k = Num 0 \<Longrightarrow> is_double (d ! k ! j) \<Longrightarrow> relaxed d k k j = d ! k ! j"
  by (simp add: relaxed_def js_less_irrefl add_zero_left)

lemma partly_step:
  assumes "partly n d k i j c" "i < n" "j < n" "k < n" "d ! k ! k = Num 0"
    and "is_double (d ! i ! k)" "is_double (d ! k ! j)"
  shows "partly n d k i (Suc j) (relax_d k i j c)"
proof -
  have sq: "square n c" using assms(1) by (simp add: partly_def)
  have cell: "c ! a ! b = (if a < i \<or> (a = i \<and> b < j) then relaxed d k a b else d ! a ! b)"
    if "a < n" "b < n" for a b
    using assms(1) that by (simp add: partly_def)
  have ik: "c ! i ! k = d ! i ! k"
    using cell[OF assms(2,4)] relaxed_col[OF assms(5,6)] by simp
  have kj: "c ! k ! j = d ! k ! j"
    using cell[OF assms(4,3)] relaxed_row[OF assms(5,7)] by simp
  have ij: "c ! i ! j = d ! i ! j"
    using cell[OF assms(2,3)] by simp
  have new: "relax_d k i j c ! a ! b = (if a = i \<and> b = j then relaxed d k i j else c ! a ! b)"
    if "a < n" "b < n" for a b
    using that sq assms(2,3)
    by (auto simp: relax_d_def relaxed_def ik kj ij mset_nth)
  have "square n (relax_d k i j c)"
    using sq by (simp add: relax_d_def mset_square)
  moreover have "relax_d k i j c ! a ! b
      = (if a < i \<or> (a = i \<and> b < Suc j) then relaxed d k a b else d ! a ! b)"
    if "a < n" "b < n" for a b
    using new[OF that] cell[OF that] by (auto simp: less_Suc_eq)
  ultimately show ?thesis by (simp add: partly_def)
qed

lemma partly_row:
  assumes "partly n d k i 0 c" "i < n" "k < n" "d ! k ! k = Num 0" "m \<le> n"
    and "\<And>a. a < n \<Longrightarrow> is_double (d ! a ! k) \<and> is_double (d ! k ! a)"
  shows "partly n d k i m (fold (\<lambda>j. relax_d k i j) [0..<m] c)"
  using assms(5)
proof (induction m)
  case 0
  then show ?case using assms(1) by simp
next
  case (Suc m)
  then have "partly n d k i m (fold (\<lambda>j. relax_d k i j) [0..<m] c)" and m: "m < n" by simp_all
  then have "partly n d k i (Suc m) (relax_d k i m (fold (\<lambda>j. relax_d k i j) [0..<m] c))"
    using assms(2,3,4) assms(6)[of i] assms(6)[of m] by (intro partly_step) simp_all
  then show ?case by simp
qed

lemma partly_next_row: "partly n d k i n c \<Longrightarrow> partly n d k (Suc i) 0 c"
  by (auto simp: partly_def less_Suc_eq)

lemma partly_rows:
  assumes "partly n d k 0 0 c" "k < n" "d ! k ! k = Num 0" "m \<le> n"
    and "\<And>a. a < n \<Longrightarrow> is_double (d ! a ! k) \<and> is_double (d ! k ! a)"
  shows "partly n d k m 0 (fold (\<lambda>i. fold (\<lambda>j. relax_d k i j) [0..<n]) [0..<m] c)"
  using assms(4)
proof (induction m)
  case 0
  then show ?case using assms(1) by simp
next
  case (Suc m)
  then have "partly n d k m 0 (fold (\<lambda>i. fold (\<lambda>j. relax_d k i j) [0..<n]) [0..<m] c)"
    by simp
  from partly_next_row[OF partly_row[OF this _ assms(2,3) order_refl assms(5)]] Suc.prems
  show ?case by simp
qed

lemma stage_d_relaxed:
  assumes "square n d" "k < n" "d ! k ! k = Num 0"
    and "\<And>a. a < n \<Longrightarrow> is_double (d ! a ! k) \<and> is_double (d ! k ! a)"
  shows "square n (stage_d n k d)"
    and "i < n \<Longrightarrow> j < n \<Longrightarrow> stage_d n k d ! i ! j = relaxed d k i j"
proof -
  have "partly n d k 0 0 d" using assms(1) by (simp add: partly_def)
  from partly_rows[OF this assms(2,3) order_refl assms(4)]
  have p: "partly n d k n 0 (stage_d n k d)" by (simp add: stage_d_def)
  show "square n (stage_d n k d)" using p by (simp add: partly_def)
  show "stage_d n k d ! i ! j = relaxed d k i j" if "i < n" "j < n"
    using p that by (simp add: partly_def)
qed

lemma relaxed_rlx: "relaxed d k i j = rlx (d ! i ! j) (d ! i ! k) (d ! k ! j)"
  by (simp add: relaxed_def rlx_def)

lemma rlx_nonneg: "Num 0 \<le> x \<Longrightarrow> Num 0 \<le> a \<Longrightarrow> Num 0 \<le> b \<Longrightarrow> Num 0 \<le> rlx x a b"
  by (simp add: rlx_def nonneg_add)

lemma rlx_double: "is_double x \<Longrightarrow> is_double (rlx x a b)"
  by (simp add: rlx_def)

lemma rlx_diag: "Num 0 \<le> a \<Longrightarrow> Num 0 \<le> b \<Longrightarrow> rlx (Num 0) a b = Num 0"
  using nonneg_not_less_zero[OF nonneg_add, of a b] by (simp add: rlx_def)

lemma rlx_commute: "rlx x a b = rlx x b a"
  by (simp add: rlx_def js_add_commute)

lemma half_metric_stage:
  assumes "half_metric n d" "k < n"
  shows "half_metric n (stage_d n k d)"
proof -
  let ?e = "stage_d n k d"
  have sq: "square n d" and nn: "\<And>i j. i < n \<Longrightarrow> j < n \<Longrightarrow> Num 0 \<le> d ! i ! j"
    and db: "\<And>i j. i < n \<Longrightarrow> j < n \<Longrightarrow> is_double (d ! i ! j)"
    and dg: "\<And>i. i < n \<Longrightarrow> d ! i ! i = Num 0"
    and sy: "\<And>i j. i < n \<Longrightarrow> j < n \<Longrightarrow> d ! i ! j = d ! j ! i"
    using assms(1) by (auto simp: half_metric_def)
  have kk: "d ! k ! k = Num 0" using dg assms(2) by simp
  have dk: "is_double (d ! a ! k) \<and> is_double (d ! k ! a)" if "a < n" for a
    using db that assms(2) by simp
  have e: "?e ! i ! j = rlx (d ! i ! j) (d ! i ! k) (d ! k ! j)" if "i < n" "j < n" for i j
    using stage_d_relaxed(2)[OF sq assms(2) kk dk that] by (simp add: relaxed_rlx)
  have 1: "square n ?e" by (rule stage_d_relaxed(1)[OF sq assms(2) kk dk])
  have 2: "Num 0 \<le> ?e ! i ! j \<and> is_double (?e ! i ! j)" if "i < n" "j < n" for i j
    using that assms(2) by (simp add: e rlx_nonneg rlx_double nn db)
  have 3: "?e ! i ! i = Num 0" if "i < n" for i
    using that assms(2) by (simp add: e dg rlx_diag nn)
  have 4: "?e ! i ! j = ?e ! j ! i" if "i < n" "j < n" for i j
    using that assms(2) rlx_commute[of "d ! i ! j" "d ! i ! k" "d ! k ! j"]
    by (simp add: e sy[of i j] sy[of i k] sy[of k j])
  show ?thesis unfolding half_metric_def using 1 2 3 4 by blast
qed

lemma half_metric_stages:
  assumes "half_metric n d" "m \<le> n"
  shows "half_metric n (fold (stage_d n) [0..<m] d)"
  using assms(2)
proof (induction m)
  case 0
  then show ?case using assms(1) by simp
next
  case (Suc m)
  then show ?case using half_metric_stage[of n _ m] by simp
qed

lemma half_metric_fw_d: "half_metric n d \<Longrightarrow> half_metric n (fw_d n d)"
  unfolding fw_d_def by (rule half_metric_stages) simp_all

lemma for_each_inv:
  assumes "for_each xs body s = Some s'" "I s"
    and "\<And>x a b. x \<in> set xs \<Longrightarrow> I a \<Longrightarrow> body x a = Some b \<Longrightarrow> I b"
  shows "I s'"
  using assms
proof (induction xs arbitrary: s)
  case Nil
  then show ?case by simp
next
  case (Cons x xs)
  from Cons.prems(1) obtain a where a: "body x s = Some a" "for_each xs body a = Some s'"
    by (auto split: option.splits)
  have "I a" using Cons.prems(3)[of x s a] Cons.prems(2) a(1) by simp
  moreover have "I u \<Longrightarrow> body y u = Some v \<Longrightarrow> I v" if "y \<in> set xs" for y u v
    using Cons.prems(3)[of y u v] that by simp
  ultimately show ?case by (rule Cons.IH[OF a(2)])
qed

lemma square_replicate: "square n (replicate n (replicate n v))"
  by (simp add: square_def)

lemma diagonal_cells:
  assumes "m \<le> n"
  shows "square n (fold (\<lambda>i d. mset d i i (Num 0)) [0..<m] (replicate n (replicate n PInf)))
       \<and> (\<forall>a<n. \<forall>b<n.
            fold (\<lambda>i d. mset d i i (Num 0)) [0..<m] (replicate n (replicate n PInf)) ! a ! b
              = (if a = b \<and> a < m then Num 0 else PInf))"
  using assms
proof (induction m)
  case 0
  then show ?case by (simp add: square_replicate)
next
  case (Suc m)
  then show ?case by (auto simp: mset_square mset_nth less_Suc_eq)
qed

lemma pf_dist_set_diagonal:
  "pf_dist (set_diagonal n pf) = fold (\<lambda>i d. mset d i i (Num 0)) [0..<n] (pf_dist pf)"
  unfolding set_diagonal_def by (rule pf_dist_fold) simp

lemma half_metric_start: "half_metric n (pf_dist (set_diagonal n (init_matrices n)))"
  using diagonal_cells[of n n]
  by (auto simp: half_metric_def pf_dist_set_diagonal init_matrices_def)

lemma Math_min_nonneg: "Num 0 \<le> a \<Longrightarrow> Num 0 \<le> b \<Longrightarrow> Num 0 \<le> Math_min a b"
  by (auto simp: Math_min_def less_eq_jsnum_def)

lemma Math_min_double: "is_double a \<Longrightarrow> is_double b \<Longrightarrow> is_double (Math_min a b)"
  by (auto simp: Math_min_def)

lemma getEdgeCost_nonneg: "nonneg_edge e \<Longrightarrow> Num 0 \<le> getEdgeCost e"
  by (auto simp: nonneg_edge_def getEdgeCost_def Let_def Math_min_nonneg)

lemma getEdgeCost_double: "double_edge e \<Longrightarrow> is_double (getEdgeCost e)"
  by (auto simp: double_edge_def getEdgeCost_def Let_def Math_min_double)

lemma half_metric_edge:
  assumes "half_metric n (pf_dist pf)" "edge_init n e pf = Some pf'" "Num 0 \<le> getEdgeCost e"
    and "is_double (getEdgeCost e)"
  shows "half_metric n (pf_dist pf')"
proof (cases "node_a e < n \<and> node_b e < n \<and> getEdgeCost e < pf_dist pf ! node_a e ! node_b e")
  case False
  then have "pf' = pf" using assms(2) by (auto simp: edge_init_def Let_def split: if_splits)
  then show ?thesis using assms(1) by simp
next
  case True
  let ?a = "node_a e" and ?b = "node_b e" and ?c = "getEdgeCost e" and ?d = "pf_dist pf"
  have d': "pf_dist pf' = mset (mset ?d ?a ?b ?c) ?b ?a ?c"
    using assms(2) True by (auto simp: edge_init_def Let_def)
  have sq: "square n ?d" and nn: "\<And>i j. i < n \<Longrightarrow> j < n \<Longrightarrow> Num 0 \<le> ?d ! i ! j"
    and db: "\<And>i j. i < n \<Longrightarrow> j < n \<Longrightarrow> is_double (?d ! i ! j)"
    and dg: "\<And>i. i < n \<Longrightarrow> ?d ! i ! i = Num 0"
    and sy: "\<And>i j. i < n \<Longrightarrow> j < n \<Longrightarrow> ?d ! i ! j = ?d ! j ! i"
    using assms(1) by (auto simp: half_metric_def)
  have ab: "?a \<noteq> ?b"
  proof
    assume "?a = ?b"
    then have "?c < Num 0" using True dg[of ?a] by simp
    then show False using nonneg_not_less_zero[OF assms(3)] by simp
  qed
  have an: "?a < n" and bn: "?b < n" using True by simp_all
  have cell: "pf_dist pf' ! i ! j
      = (if i = ?b \<and> j = ?a then ?c else if i = ?a \<and> j = ?b then ?c else ?d ! i ! j)"
    if "i < n" "j < n" for i j
  proof -
    have c1: "mset ?d ?a ?b ?c ! i ! j = (if i = ?a \<and> j = ?b then ?c else ?d ! i ! j)"
      by (rule mset_nth[OF sq an bn that])
    have c2: "mset (mset ?d ?a ?b ?c) ?b ?a ?c ! i ! j
        = (if i = ?b \<and> j = ?a then ?c else mset ?d ?a ?b ?c ! i ! j)"
      by (rule mset_nth[OF mset_square[OF sq] bn an that])
    show ?thesis unfolding d' c2 c1 by (rule refl)
  qed
  have new_ba: "pf_dist pf' ! ?b ! ?a = ?c" using cell[OF bn an] by simp
  have new_ab: "pf_dist pf' ! ?a ! ?b = ?c" using cell[OF an bn] by simp
  have old: "pf_dist pf' ! i ! j = ?d ! i ! j"
    if "i < n" "j < n" "\<not> (i = ?b \<and> j = ?a)" "\<not> (i = ?a \<and> j = ?b)" for i j
    using cell[OF that(1,2)] that(3,4) by simp
  have "square n (pf_dist pf')" using sq by (simp add: d' mset_square)
  moreover have "Num 0 \<le> pf_dist pf' ! i ! j \<and> is_double (pf_dist pf' ! i ! j)"
    if "i < n" "j < n" for i j
  proof -
    consider "i = ?b \<and> j = ?a" | "i = ?a \<and> j = ?b"
      | "\<not> (i = ?b \<and> j = ?a) \<and> \<not> (i = ?a \<and> j = ?b)" by blast
    then show ?thesis
    proof cases
      case 1
      then show ?thesis using new_ba assms(3,4) by simp
    next
      case 2
      then show ?thesis using new_ab assms(3,4) by simp
    next
      case 3
      then show ?thesis using old[OF that] nn[OF that] db[OF that] by simp
    qed
  qed
  moreover have "pf_dist pf' ! i ! i = Num 0" if "i < n" for i
  proof -
    have "\<not> (i = ?b \<and> i = ?a)" and "\<not> (i = ?a \<and> i = ?b)"
      using ab by metis+
    then show ?thesis using old[OF that that] dg[OF that] by simp
  qed
  moreover have "pf_dist pf' ! i ! j = pf_dist pf' ! j ! i" if "i < n" "j < n" for i j
  proof -
    consider "i = ?b \<and> j = ?a" | "i = ?a \<and> j = ?b"
      | "\<not> (i = ?b \<and> j = ?a) \<and> \<not> (i = ?a \<and> j = ?b)" by blast
    then show ?thesis
    proof cases
      case 1
      then show ?thesis using new_ba new_ab by simp
    next
      case 2
      then show ?thesis using new_ba new_ab by simp
    next
      case 3
      then have "\<not> (j = ?b \<and> i = ?a)" "\<not> (j = ?a \<and> i = ?b)" by blast+
      then show ?thesis using old[OF that] old[OF that(2,1)] 3 sy[OF that] by simp
    qed
  qed
  ultimately show ?thesis by (simp add: half_metric_def)
qed

lemma computeAllPaths_half_metric:
  assumes "computeAllPaths ns es = Some pf" "\<forall>e\<in>set es. nonneg_edge e \<and> double_edge e"
  shows "half_metric (length ns) (pf_dist pf)"
proof -
  let ?n = "length ns"
  obtain pf0 where pf0: "for_each es (edge_init ?n) (set_diagonal ?n (init_matrices ?n)) = Some pf0"
    and pf: "pf = floyd_warshall ?n pf0"
    using assms(1) by (auto simp: computeAllPaths_def Let_def)
  have "half_metric ?n (pf_dist pf0)"
  proof (rule for_each_inv[where I = "\<lambda>p. half_metric ?n (pf_dist p)", OF pf0 half_metric_start])
    fix e a b
    assume "e \<in> set es" "half_metric ?n (pf_dist a)" "edge_init ?n e a = Some b"
    then show "half_metric ?n (pf_dist b)"
      using half_metric_edge[of ?n a e b] assms(2) getEdgeCost_nonneg getEdgeCost_double by blast
  qed
  then show ?thesis
    by (simp add: pf pf_dist_floyd_warshall half_metric_fw_d)
qed

lemma getCost_square:
  "square n (pf_dist pf) \<Longrightarrow> i < n \<Longrightarrow> j < n \<Longrightarrow> getCost pf i j = Some (pf_dist pf ! i ! j)"
  by (simp add: getCost_def square_def)

text \<open>
  C3, as the code has it. For every graph whose edges have non-negative costs on their
  available modes (the costs being binary64 values, as every Number is), and for which the
  rebuild returns, the distance matrix satisfies for all node indices \<open>i\<close> and \<open>j\<close>: the
  cost from \<open>i\<close> to \<open>i\<close> is 0, the cost from \<open>i\<close> to \<open>j\<close> is the cost from \<open>j\<close> to \<open>i\<close>,
  and every cost is a non-negative number or Infinity (Infinity for an unreachable pair).
  The triangle inequality is not part of the statement: the sums of the relaxation are
  rounded, and the matrix can break it.
\<close>

theorem computeAllPaths_zero_diagonal_symmetric:
  assumes "computeAllPaths ns es = Some pf" "\<forall>e\<in>set es. nonneg_edge e \<and> double_edge e"
    and "i < length ns" "j < length ns"
  shows "getCost pf i i = Some (Num 0)
       \<and> getCost pf i j = getCost pf j i
       \<and> (\<exists>c. getCost pf i j = Some c \<and> Num 0 \<le> c)"
proof -
  let ?n = "length ns"
  have c: "half_metric ?n (pf_dist pf)" by (rule computeAllPaths_half_metric[OF assms(1,2)])
  then have sq: "square ?n (pf_dist pf)" by (simp add: half_metric_def)
  have "pf_dist pf ! i ! i = Num 0" "pf_dist pf ! i ! j = pf_dist pf ! j ! i"
    "Num 0 \<le> pf_dist pf ! i ! j"
    using c assms(3,4) by (auto simp: half_metric_def)
  then show ?thesis using assms(3,4) by (simp add: getCost_square[OF sq])
qed

theorem computeAllPaths_zero_diagonal_symmetric_witness:
  "computeAllPaths (chain_nodes (Num 20) (Num 5)) chain_edges = Some chain_paths
   \<and> list_all (\<lambda>e. nonneg_edge e \<and> double_edge e) chain_edges
   \<and> (0::nat) < length (chain_nodes (Num 20) (Num 5))
   \<and> (3::nat) < length (chain_nodes (Num 20) (Num 5))
   \<and> getCost chain_paths 0 0 = Some (Num 0)
   \<and> getCost chain_paths 0 3 = Some (Num 9) \<and> getCost chain_paths 3 0 = Some (Num 9)
   \<and> Num 0 \<le> Num 9"
proof -
  have run: "computeAllPaths (chain_nodes (Num 20) (Num 5)) chain_edges = Some chain_paths"
    by (rule chain_paths_computed)
  have costs: "list_all (\<lambda>e. nonneg_edge e \<and> double_edge e) chain_edges"
    by code_simp
  have len: "(0::nat) < length (chain_nodes (Num 20) (Num 5))"
    "(3::nat) < length (chain_nodes (Num 20) (Num 5))"
    by (simp_all add: chain_nodes_def)
  have cells: "getCost chain_paths 0 0 = Some (Num 0)"
    "getCost chain_paths 0 3 = Some (Num 9)" "getCost chain_paths 3 0 = Some (Num 9)"
    by (simp_all add: getCost_def chain_paths_def)
  have costs': "\<forall>e\<in>set chain_edges. nonneg_edge e \<and> double_edge e"
    using costs by (simp add: list_all_iff)
  from computeAllPaths_zero_diagonal_symmetric [OF run costs' len] run costs len cells
  show ?thesis by simp
qed

text \<open>
  The claim as the specification states it, with the triangle inequality, fails. On the
  chain with the costs 3, \<open>2^53\<close> and 2 the rebuild computes the cost from node 0 to node 2
  as \<open>3 + 2^53\<close>, which rounds up to \<open>2^53 + 4\<close>, and the cost from 0 to 3 as
  \<open>2^53 + 6\<close>; the cost from 1 to 3 is \<open>2^53 + 2\<close>. So the cost from 0 to 3 is more than
  the cost from 0 to 1 plus the cost from 1 to 3, which is \<open>2^53 + 5\<close> as a real number
  and \<open>2^53 + 4\<close> as the sum of the two Numbers.
\<close>

theorem computeAllPaths_triangle_counterexample:
  "list_all (\<lambda>e. nonneg_edge e \<and> double_edge e) wide_edges
   \<and> computeAllPaths (chain_nodes (Num 20) (Num 5)) wide_edges = Some wide_paths
   \<and> getCost wide_paths 0 3 = Some (Num 9007199254740998)
   \<and> getCost wide_paths 0 1 = Some (Num 3)
   \<and> getCost wide_paths 1 3 = Some (Num 9007199254740994)
   \<and> Num 3 + Num 9007199254740994 = Num 9007199254740996
   \<and> \<not> Num 9007199254740998 \<le> Num 3 + Num 9007199254740994
   \<and> \<not> (9007199254740998::real) \<le> 3 + 9007199254740994"
  by code_simp

section \<open>Monotonicity\<close>

lemma proper_cases:
  assumes "proper a"
  obtains r where "a = Num r" | "a = PInf"
  using assms by (cases a) (auto simp: proper_def)

lemma js_le_extremes [simp]:
  "(PInf \<le> a) = (a = PInf)" "(a \<le> NInf) = (a = NInf)" "\<not> NaN \<le> a" "\<not> a \<le> NaN"
  by (cases a; auto simp: less_eq_jsnum_def)+

lemma js_add_mono:
  assumes "a \<le> a'" "b \<le> b'" "a + b \<noteq> NaN" "a' + b' \<noteq> NaN"
  shows "a + b \<le> a' + b'"
  using assms
  by (cases a; cases a'; cases b; cases b') (simp_all add: round64_mono add_mono)

lemma js_add_NaN_up:
  assumes "a \<le> a'" "b \<le> b'" "a + b = NaN" "a' + b' \<noteq> NaN"
  shows "a' + b' = PInf"
  using assms
  by (cases a; cases a'; cases b; cases b') simp_all

lemma rlx_le: "x \<noteq> NaN \<Longrightarrow> rlx x a b \<le> x"
  by (simp add: rlx_def js_less_imp_le js_le_refl)

lemma rlx_mono:
  assumes "x \<le> x'" "a \<le> a'" "b \<le> b'"
  shows "rlx x a b \<le> rlx x' a' b'"
proof -
  have x: "x \<noteq> NaN" using js_le_not_NaN[OF assms(1)] by simp
  show ?thesis
  proof (cases "a' + b' < x'")
    case False
    then have "rlx x' a' b' = x'" by (simp add: rlx_def)
    then show ?thesis using js_le_trans[OF rlx_le[OF x] assms(1)] by simp
  next
    case True
    then have r': "rlx x' a' b' = a' + b'" and s': "a' + b' \<noteq> NaN"
      by (auto simp: rlx_def)
    show ?thesis
    proof (cases "a + b = NaN")
      case n: True
      then have "rlx x a b = x" by (simp add: rlx_def)
      then show ?thesis using js_add_NaN_up[OF assms(2,3) n s'] x by (simp add: r')
    next
      case n: False
      note le = js_add_mono[OF assms(2,3) n s']
      show ?thesis
      proof (cases "a + b < x")
        case True
        then have "rlx x a b = a + b" by (simp add: rlx_def)
        then show ?thesis using le by (simp add: r')
      next
        case False
        then have "rlx x a b = x" by (simp add: rlx_def)
        moreover have "x \<le> a + b" using js_not_less[OF n x False] .
        ultimately show ?thesis using js_le_trans[OF _ le] by (simp add: r')
      qed
    qed
  qed
qed

lemma relax_d_at:
  assumes "square n d" "i < n" "j < n"
  shows "relax_d k i j d ! i ! j = rlx (d ! i ! j) (d ! i ! k) (d ! k ! j)"
  using mset_nth[OF assms assms(2,3)] by (simp add: relax_d_def rlx_def)

lemma relax_d_other:
  assumes "square n d" "i < n" "j < n" "u < n" "v < n" "\<not> (u = i \<and> v = j)"
  shows "relax_d k i j d ! u ! v = d ! u ! v"
  using mset_nth[OF assms(1,2,3,4,5)] assms(6) by (simp add: relax_d_def)

lemma relax_d_square: "square n d \<Longrightarrow> square n (relax_d k i j d)"
  by (simp add: relax_d_def mset_square)

lemma below_relax:
  assumes "below n d d'" "k < n" "i < n" "j < n"
  shows "below n (relax_d k i j d) (relax_d k i j d')"
proof -
  have sq: "square n d" "square n d'" using assms(1) by (simp_all add: below_def)
  have c: "d ! u ! v \<le> d' ! u ! v" if "u < n" "v < n" for u v
    using assms(1) that by (simp add: below_def)
  have "relax_d k i j d ! u ! v \<le> relax_d k i j d' ! u ! v" if uv: "u < n" "v < n" for u v
  proof (cases "u = i \<and> v = j")
    case True
    show ?thesis
      using rlx_mono[OF c[OF assms(3,4)] c[OF assms(3,2)] c[OF assms(2,4)]] True
      by (simp add: relax_d_at[OF sq(1) assms(3,4)] relax_d_at[OF sq(2) assms(3,4)])
  next
    case False
    show ?thesis
      using c[OF uv]
      by (simp add: relax_d_other[OF sq(1) assms(3,4) uv False]
          relax_d_other[OF sq(2) assms(3,4) uv False])
  qed
  then show ?thesis
    using sq by (simp add: below_def relax_d_square)
qed

lemma fold_rel:
  assumes "R a b" "\<And>x a b. x \<in> set xs \<Longrightarrow> R a b \<Longrightarrow> R (f x a) (f x b)"
  shows "R (fold f xs a) (fold f xs b)"
  using assms
proof (induction xs arbitrary: a b)
  case Nil
  then show ?case by simp
next
  case (Cons x xs)
  have "R (f x a) (f x b)" using Cons.prems(2)[of x a b] Cons.prems(1) by simp
  moreover have "R u v \<Longrightarrow> R (f y u) (f y v)" if "y \<in> set xs" for y u v
    using Cons.prems(2)[of y u v] that by simp
  ultimately have "R (fold f xs (f x a)) (fold f xs (f x b))" by (rule Cons.IH)
  then show ?case by simp
qed

lemma below_row:
  assumes "below n d d'" "k < n" "i < n"
  shows "below n (fold (\<lambda>j. relax_d k i j) [0..<n] d) (fold (\<lambda>j. relax_d k i j) [0..<n] d')"
proof (rule fold_rel[where R = "below n", OF assms(1)])
  fix j a b
  assume "j \<in> set [0..<n]" "below n a b"
  then show "below n (relax_d k i j a) (relax_d k i j b)"
    using below_relax[of n a b k i j] assms(2,3) by simp
qed

lemma below_stage:
  assumes "below n d d'" "k < n"
  shows "below n (stage_d n k d) (stage_d n k d')"
  unfolding stage_d_def
proof (rule fold_rel[where R = "below n", OF assms(1)])
  fix i a b
  assume "i \<in> set [0..<n]" "below n a b"
  then show "below n (fold (\<lambda>j. relax_d k i j) [0..<n] a) (fold (\<lambda>j. relax_d k i j) [0..<n] b)"
    using below_row[of n a b k i] assms(2) by simp
qed

lemma below_fw_d:
  assumes "below n d d'"
  shows "below n (fw_d n d) (fw_d n d')"
  unfolding fw_d_def
proof (rule fold_rel[where R = "below n", OF assms(1)])
  fix k a b
  assume "k \<in> set [0..<n]" "below n a b"
  then show "below n (stage_d n k a) (stage_d n k b)"
    using below_stage[of n a b k] by simp
qed

lemma mn_mono:
  assumes "c' \<le> c" "x' \<le> x"
  shows "mn c' x' \<le> mn c x"
  using assms
  by (cases c'; cases c; cases x'; cases x) (auto simp: mn_def)

lemma mset_nth_same: "square n m \<Longrightarrow> i < n \<Longrightarrow> j < n \<Longrightarrow> mset m i j v ! i ! j = v"
  by (simp add: mset_nth)

lemma mset_nth_other:
  assumes "square n m" "i < n" "j < n" "u < n" "w < n" "\<not> (u = i \<and> w = j)"
  shows "mset m i j v ! u ! w = m ! u ! w"
proof -
  have "mset m i j v ! u ! w = (if u = i \<and> w = j then v else m ! u ! w)"
    by (rule mset_nth[OF assms(1,2,3,4,5)])
  then show ?thesis by (simp only: assms(6) if_False)
qed

lemma edge_cells:
  fixes c :: jsnum
  assumes sq: "square n d" and sy: "symmetric n d" and a: "a < n" and b: "b < n"
  defines "r \<equiv> (if c < d ! a ! b then mset (mset d a b c) b a c else d)"
  shows "square n r" "symmetric n r" "r ! a ! b = mn c (d ! a ! b)" "r ! b ! a = mn c (d ! b ! a)"
    and "\<And>u v. u < n \<Longrightarrow> v < n \<Longrightarrow> \<not> (u = a \<and> v = b) \<Longrightarrow> \<not> (u = b \<and> v = a)
           \<Longrightarrow> r ! u ! v = d ! u ! v"
proof -
  let ?m = "mset (mset d a b c) b a c"
  have sq1: "square n (mset d a b c)" by (rule mset_square[OF sq])
  have dba: "d ! b ! a = d ! a ! b" using sy a b by (simp add: symmetric_def)
  have m_ba: "?m ! b ! a = c" by (rule mset_nth_same[OF sq1 b a])
  have m_ab: "?m ! a ! b = c"
  proof (cases "a = b")
    case True
    then show ?thesis using m_ba by simp
  next
    case False
    then have "\<not> (a = b \<and> b = a)" by blast
    from mset_nth_other[OF sq1 b a a b this] mset_nth_same[OF sq a b]
    show ?thesis by (simp only:)
  qed
  have m_other: "?m ! u ! v = d ! u ! v"
    if "u < n" "v < n" "\<not> (u = a \<and> v = b)" "\<not> (u = b \<and> v = a)" for u v
    using mset_nth_other[OF sq1 b a that(1,2,4)] mset_nth_other[OF sq a b that(1,2,3)]
    by (simp only:)
  show 1: "square n r" using sq by (simp add: r_def mset_square)
  show 3: "r ! a ! b = mn c (d ! a ! b)" using m_ab by (simp add: r_def mn_def)
  show 4: "r ! b ! a = mn c (d ! b ! a)" using m_ba by (simp add: r_def mn_def dba)
  show 5: "r ! u ! v = d ! u ! v"
    if "u < n" "v < n" "\<not> (u = a \<and> v = b)" "\<not> (u = b \<and> v = a)" for u v
    using m_other[OF that] by (simp add: r_def)
  have "r ! u ! v = r ! v ! u" if uv: "u < n" "v < n" for u v
  proof -
    consider "u = a \<and> v = b" | "u = b \<and> v = a" | "\<not> (u = a \<and> v = b) \<and> \<not> (u = b \<and> v = a)"
      by blast
    then show ?thesis
    proof cases
      case 1
      then have "r ! u ! v = r ! a ! b" "r ! v ! u = r ! b ! a" by simp_all
      then show ?thesis by (simp only: 3 4 dba)
    next
      case 2
      then have "r ! u ! v = r ! b ! a" "r ! v ! u = r ! a ! b" by simp_all
      then show ?thesis by (simp only: 3 4 dba)
    next
      case 3
      then have n1: "\<not> (u = a \<and> v = b)" and n2: "\<not> (u = b \<and> v = a)"
        and n3: "\<not> (v = a \<and> u = b)" and n4: "\<not> (v = b \<and> u = a)" by blast+
      have "d ! u ! v = d ! v ! u" using sy uv by (simp add: symmetric_def)
      then show ?thesis using 5[OF uv n1 n2] 5[OF uv(2,1) n3 n4] by (simp only:)
    qed
  qed
  then show "symmetric n r" by (simp add: symmetric_def)
qed

lemma edge_init_dist:
  assumes "edge_init n e pf = Some pf'"
  shows "node_a e < n"
    and "node_b e < n \<Longrightarrow> pf_dist pf' =
          (if getEdgeCost e < pf_dist pf ! node_a e ! node_b e
           then mset (mset (pf_dist pf) (node_a e) (node_b e) (getEdgeCost e))
                  (node_b e) (node_a e) (getEdgeCost e)
           else pf_dist pf)"
    and "\<not> node_b e < n \<Longrightarrow> pf' = pf"
  using assms by (auto simp: edge_init_def Let_def split: if_splits)

lemma edge_rel:
  assumes rel: "init_rel n (pf_dist p1) (pf_dist p2)" and ch: "cheaper e1 e2"
    and r1: "edge_init n e1 p1 = Some q1" and r2: "edge_init n e2 p2 = Some q2"
  shows "init_rel n (pf_dist q1) (pf_dist q2)"
proof (cases "node_b e2 < n")
  case False
  then have "q1 = p1" "q2 = p2"
    using edge_init_dist(3)[OF r1] edge_init_dist(3)[OF r2] ch by (simp_all add: cheaper_def)
  then show ?thesis using rel by simp
next
  case True
  let ?a = "node_a e2" and ?b = "node_b e2"
  let ?c1 = "getEdgeCost e1" and ?c2 = "getEdgeCost e2"
  let ?d1 = "pf_dist p1" and ?d2 = "pf_dist p2"
  have ends: "node_a e1 = ?a" "node_b e1 = ?b" using ch by (simp_all add: cheaper_def)
  have cs: "proper ?c1" "proper ?c2" "?c1 \<le> ?c2" using ch by (simp_all add: cheaper_def)
  have a: "?a < n" by (rule edge_init_dist(1)[OF r2])
  have b: "?b < n" by (rule True)
  have sq: "square n ?d1" "square n ?d2" and sy: "symmetric n ?d1" "symmetric n ?d2"
    using rel by (simp_all add: init_rel_def below_def)
  have cell: "?d1 ! u ! v \<le> ?d2 ! u ! v" if "u < n" "v < n" for u v
    using rel that by (simp add: init_rel_def below_def)
  have q1: "pf_dist q1 = (if ?c1 < ?d1 ! ?a ! ?b then mset (mset ?d1 ?a ?b ?c1) ?b ?a ?c1 else ?d1)"
    using edge_init_dist(2)[OF r1] b ends by simp
  have q2: "pf_dist q2 = (if ?c2 < ?d2 ! ?a ! ?b then mset (mset ?d2 ?a ?b ?c2) ?b ?a ?c2 else ?d2)"
    using edge_init_dist(2)[OF r2] b by simp
  note e1 = edge_cells[OF sq(1) sy(1) a b, where c = ?c1, folded q1]
  note e2 = edge_cells[OF sq(2) sy(2) a b, where c = ?c2, folded q2]
  have "pf_dist q1 ! u ! v \<le> pf_dist q2 ! u ! v" if uv: "u < n" "v < n" for u v
  proof -
    consider "u = ?a \<and> v = ?b" | "u = ?b \<and> v = ?a"
      | "\<not> (u = ?a \<and> v = ?b) \<and> \<not> (u = ?b \<and> v = ?a)"
      by blast
    then show ?thesis
    proof cases
      case 1
      from mn_mono[OF cs(3) cell[OF a b]]
      have "pf_dist q1 ! ?a ! ?b \<le> pf_dist q2 ! ?a ! ?b" by (simp only: e1(3) e2(3))
      then show ?thesis using 1 by simp
    next
      case 2
      from mn_mono[OF cs(3) cell[OF b a]]
      have "pf_dist q1 ! ?b ! ?a \<le> pf_dist q2 ! ?b ! ?a" by (simp only: e1(4) e2(4))
      then show ?thesis using 2 by simp
    next
      case 3
      then have n1: "\<not> (u = ?a \<and> v = ?b)" and n2: "\<not> (u = ?b \<and> v = ?a)" by blast+
      show ?thesis using cell[OF uv] by (simp only: e1(5)[OF uv n1 n2] e2(5)[OF uv n1 n2])
    qed
  qed
  then have "below n (pf_dist q1) (pf_dist q2)"
    using e1(1) e2(1) by (simp add: below_def)
  then show ?thesis using e1(2) e2(2) by (simp add: init_rel_def)
qed

lemma for_each_rel:
  assumes "list_all2 Q xs ys" "for_each xs f a = Some a'" "for_each ys g b = Some b'" "R a b"
    and step: "\<And>x y a b a' b'. Q x y \<Longrightarrow> R a b \<Longrightarrow> f x a = Some a' \<Longrightarrow> g y b = Some b'
                 \<Longrightarrow> R a' b'"
  shows "R a' b'"
  using assms(1,2,3,4)
proof (induction xs ys arbitrary: a b rule: list_all2_induct)
  case Nil
  then show ?case by simp
next
  case (Cons x xs y ys)
  from Cons.prems(1) obtain u where u: "f x a = Some u" "for_each xs f u = Some a'"
    by (auto split: option.splits)
  from Cons.prems(2) obtain v where v: "g y b = Some v" "for_each ys g v = Some b'"
    by (auto split: option.splits)
  have "R u v" by (rule step[OF Cons.hyps(1) Cons.prems(3) u(1) v(1)])
  then show ?case by (rule Cons.IH[OF u(2) v(2)])
qed

lemma init_rel_start:
  "init_rel n (pf_dist (set_diagonal n (init_matrices n)))
     (pf_dist (set_diagonal n (init_matrices n)))"
proof -
  let ?s = "pf_dist (set_diagonal n (init_matrices n))"
  have c: "half_metric n ?s" by (rule half_metric_start)
  have "?s ! i ! j \<le> ?s ! i ! j" if "i < n" "j < n" for i j
  proof -
    have "Num 0 \<le> ?s ! i ! j" using c that by (simp add: half_metric_def)
    then have "?s ! i ! j \<noteq> NaN" using js_le_not_NaN[of "Num 0" "?s ! i ! j"] by simp
    then show ?thesis by (rule js_le_refl)
  qed
  then show ?thesis using c by (simp add: init_rel_def below_def symmetric_def half_metric_def)
qed

lemma computeAllPaths_mono:
  assumes "computeAllPaths ns es' = Some pf'" "computeAllPaths ns es = Some pf"
    "list_all2 cheaper es' es"
  shows "below (length ns) (pf_dist pf') (pf_dist pf)"
proof -
  let ?n = "length ns"
  let ?s = "set_diagonal ?n (init_matrices ?n)"
  obtain p' where p': "for_each es' (edge_init ?n) ?s = Some p'" "pf' = floyd_warshall ?n p'"
    using assms(1) by (auto simp: computeAllPaths_def Let_def)
  obtain p where p: "for_each es (edge_init ?n) ?s = Some p" "pf = floyd_warshall ?n p"
    using assms(2) by (auto simp: computeAllPaths_def Let_def)
  have "init_rel ?n (pf_dist p') (pf_dist p)"
  proof (rule for_each_rel[where R = "\<lambda>u v. init_rel ?n (pf_dist u) (pf_dist v)",
        OF assms(3) p'(1) p(1) init_rel_start])
    fix x y a b a' b'
    assume "cheaper x y" "init_rel ?n (pf_dist a) (pf_dist b)"
      "edge_init ?n x a = Some a'" "edge_init ?n y b = Some b'"
    then show "init_rel ?n (pf_dist a') (pf_dist b')"
      using edge_rel[of ?n a b x y a' b'] by simp
  qed
  then have "below ?n (pf_dist p') (pf_dist p)" by (simp add: init_rel_def)
  then show ?thesis
    by (simp add: p'(2) p(2) pf_dist_floyd_warshall below_fw_d)
qed

lemma cheaper_refl: "proper (getEdgeCost e) \<Longrightarrow> cheaper e e"
  by (simp add: cheaper_def proper_def js_le_refl)

lemma list_all2_cheaper_update:
  assumes "\<forall>e\<in>set es. proper (getEdgeCost e)" "cheaper e' (es ! k)"
  shows "list_all2 cheaper (es[k := e']) es"
proof -
  have "cheaper (es[k := e'] ! i) (es ! i)" if "i < length es" for i
  proof (cases "i = k")
    case True
    then show ?thesis using assms(2) that by simp
  next
    case False
    then show ?thesis using assms(1) that by (simp add: cheaper_refl)
  qed
  then show ?thesis by (simp add: list_all2_conv_all_nth)
qed

lemma getEdgeCost_land:
  "getEdgeCost e =
     (if pipe_owner (transportation_pipeline e) \<noteq> None
      then Math_min (land_cost e) (pipe_fee (transportation_pipeline e))
      else land_cost e)"
  by (simp add: getEdgeCost_def land_cost_def Let_def)

lemma Math_min_new_mode:
  assumes "proper m" "proper f"
  shows "proper (Math_min m f) \<and> Math_min m f \<le> m"
  using assms
  by (elim proper_cases) (auto simp: Math_min_def proper_def less_eq_jsnum_def)

lemma Math_min_lower_fee:
  assumes "proper (Math_min m f0)" "proper f" "f \<le> f0"
  shows "proper (Math_min m f) \<and> Math_min m f \<le> Math_min m f0"
  using assms
  by (cases m; cases f0; cases f) (auto simp: Math_min_def proper_def less_eq_jsnum_def)

lemma buildPipeline_cheaper:
  assumes "buildPipeline s playerId edgeId = Some (Success, s')"
    and "\<forall>e\<in>set (edges s). proper (getEdgeCost e)"
    and "proper (PIPELINE_DEFAULT_FEE (settings s))"
  shows "nodes s' = nodes s \<and> list_all2 cheaper (edges s') (edges s)
       \<and> computeAllPaths (nodes s) (edges s') = Some (pathfinder s')"
proof -
  let ?e = "edges s ! edgeId"
  let ?e' = "?e\<lparr>transportation_pipeline :=
               \<lparr> pipe_owner = Some playerId,
                 pipe_capacity = PIPELINE_BASE_CAPACITY (settings s),
                 pipe_fee = PIPELINE_DEFAULT_FEE (settings s),
                 pipe_utilization = Num 0 \<rparr>\<rparr>"
  have k: "edgeId < length (edges s)" and none: "pipe_owner (transportation_pipeline ?e) = None"
    and ns: "nodes s' = nodes s" and es: "edges s' = (edges s)[edgeId := ?e']"
    and pf: "computeAllPaths (nodes s) (edges s') = Some (pathfinder s')"
    using assms(1) by (auto simp: buildPipeline_def Let_def split: if_splits)
  have old: "getEdgeCost ?e = land_cost ?e" using none by (simp add: getEdgeCost_land)
  have new: "getEdgeCost ?e' = Math_min (land_cost ?e) (PIPELINE_DEFAULT_FEE (settings s))"
    by (simp add: getEdgeCost_land land_cost_def)
  have "proper (getEdgeCost ?e)" using assms(2) k by simp
  then have "cheaper ?e' ?e"
    using Math_min_new_mode[of "land_cost ?e" "PIPELINE_DEFAULT_FEE (settings s)"] assms(3)
    by (simp add: cheaper_def old new)
  then show ?thesis
    using list_all2_cheaper_update[OF assms(2), of ?e' edgeId] ns es pf by simp
qed

lemma setPipelineFee_cheaper:
  assumes "setPipelineFee s playerId edgeId fee = Some (Success, s')"
    and "\<forall>e\<in>set (edges s). proper (getEdgeCost e)"
    and "proper fee" "fee \<le> pipe_fee (transportation_pipeline (edges s ! edgeId))"
  shows "nodes s' = nodes s \<and> list_all2 cheaper (edges s') (edges s)
       \<and> computeAllPaths (nodes s) (edges s') = Some (pathfinder s')"
proof -
  let ?e = "edges s ! edgeId"
  let ?e' = "?e\<lparr>transportation_pipeline := (transportation_pipeline ?e)\<lparr>pipe_fee := fee\<rparr>\<rparr>"
  have k: "edgeId < length (edges s)"
    and own: "pipe_owner (transportation_pipeline ?e) = Some playerId"
    and ns: "nodes s' = nodes s" and es: "edges s' = (edges s)[edgeId := ?e']"
    and pf: "computeAllPaths (nodes s) (edges s') = Some (pathfinder s')"
    using assms(1) by (auto simp: setPipelineFee_def Let_def split: if_splits)
  have old: "getEdgeCost ?e = Math_min (land_cost ?e) (pipe_fee (transportation_pipeline ?e))"
    using own by (simp add: getEdgeCost_land)
  have new: "getEdgeCost ?e' = Math_min (land_cost ?e) fee"
    using own by (simp add: getEdgeCost_land land_cost_def)
  have "proper (getEdgeCost ?e)" using assms(2) k by simp
  then have "cheaper ?e' ?e"
    using Math_min_lower_fee[of "land_cost ?e" "pipe_fee (transportation_pipeline ?e)" fee]
      assms(3,4)
    by (simp add: cheaper_def old new)
  then show ?thesis
    using list_all2_cheaper_update[OF assms(2), of ?e' edgeId] ns es pf by simp
qed

text \<open>
  C4. Let the distance matrix of a state be the one a rebuild computes for its graph, and
  let every edge cost be a finite number or Infinity. When a player builds a pipeline on
  an edge (with a default fee that is a finite number or Infinity), or the owner of a
  pipeline sets a fee that is at most the fee before, the command rebuilds the matrix, and
  for every pair of nodes the shortest cost after the command is at most the shortest cost
  before it.
\<close>

theorem relaxation_never_raises_cost:
  assumes "computeAllPaths (nodes s) (edges s) = Some (pathfinder s)"
    and "\<forall>e\<in>set (edges s). proper (getEdgeCost e)"
    and "(buildPipeline s playerId edgeId = Some (Success, s')
            \<and> proper (PIPELINE_DEFAULT_FEE (settings s)))
         \<or> (setPipelineFee s playerId edgeId fee = Some (Success, s')
            \<and> proper fee \<and> fee \<le> pipe_fee (transportation_pipeline (edges s ! edgeId)))"
    and "i < length (nodes s)" "j < length (nodes s)"
  shows "\<exists>c' c. getCost (pathfinder s') i j = Some c' \<and> getCost (pathfinder s) i j = Some c
           \<and> c' \<le> c"
proof -
  have "nodes s' = nodes s \<and> list_all2 cheaper (edges s') (edges s)
       \<and> computeAllPaths (nodes s) (edges s') = Some (pathfinder s')"
    using assms(3) buildPipeline_cheaper[OF _ assms(2)] setPipelineFee_cheaper[OF _ assms(2)]
    by blast
  then have "below (length (nodes s)) (pf_dist (pathfinder s')) (pf_dist (pathfinder s))"
    using computeAllPaths_mono[OF _ assms(1)] by blast
  then have "square (length (nodes s)) (pf_dist (pathfinder s'))"
    "square (length (nodes s)) (pf_dist (pathfinder s))"
    "pf_dist (pathfinder s') ! i ! j \<le> pf_dist (pathfinder s) ! i ! j"
    using assms(4,5) by (simp_all add: below_def)
  then show ?thesis using assms(4,5) by (simp add: getCost_square)
qed

theorem relaxation_never_raises_cost_witness:
  "computeAllPaths (nodes pipeline_state) (edges pipeline_state) = Some (pathfinder pipeline_state)
   \<and> list_all (\<lambda>e. proper (getEdgeCost e)) (edges pipeline_state)
   \<and> buildPipeline pipeline_state 0 1 = Some (Success, after_pipeline)
   \<and> proper (PIPELINE_DEFAULT_FEE (settings pipeline_state))
   \<and> (0::nat) < length (nodes pipeline_state) \<and> (2::nat) < length (nodes pipeline_state)
   \<and> getCost (pathfinder after_pipeline) 0 2 = Some (Num (7 / 2))
   \<and> getCost (pathfinder pipeline_state) 0 2 = Some (Num 6)
   \<and> Num (7 / 2) \<le> Num 6"
proof -
  have cur: "computeAllPaths (nodes pipeline_state) (edges pipeline_state)
      = Some (pathfinder pipeline_state)"
    by code_simp
  have costs: "list_all (\<lambda>e. proper (getEdgeCost e)) (edges pipeline_state)"
    by code_simp
  have cmd: "buildPipeline pipeline_state 0 1 = Some (Success, after_pipeline)"
    by code_simp
  have fee: "proper (PIPELINE_DEFAULT_FEE (settings pipeline_state))"
    by code_simp
  have len: "(0::nat) < length (nodes pipeline_state)" "(2::nat) < length (nodes pipeline_state)"
    by code_simp+
  have after: "getCost (pathfinder after_pipeline) 0 2 = Some (Num (7 / 2))"
    and before: "getCost (pathfinder pipeline_state) 0 2 = Some (Num 6)"
    by code_simp+
  have costs': "\<forall>e\<in>set (edges pipeline_state). proper (getEdgeCost e)"
    using costs by (simp add: list_all_iff)
  from relaxation_never_raises_cost [OF cur costs' disjI1 [OF conjI [OF cmd fee]] len]
    cur costs cmd fee len after before
  show ?thesis by simp
qed

section \<open>Profit settlement\<close>

lemma map_ledger_update:
  assumes "ledger q = ledger (ps ! i)"
  shows "map ledger (ps[i := q]) = map ledger ps"
proof (cases "i < length ps")
  case True
  then show ?thesis using assms by (simp add: map_update list_update_same_conv)
next
  case False
  then have "ps[i := q] = ps" by (intro list_update_beyond) simp
  then show ?thesis by simp
qed

lemma ledger_updates [simp]:
  "ledger (p\<lparr>revenue_this_turn := a\<rparr>) = ledger p"
  "ledger (p\<lparr>costs_this_turn := b\<rparr>) = ledger p"
  "ledger (p\<lparr>barrels_sold := c\<rparr>) = ledger p"
  "ledger (p\<lparr>profit_this_turn := d\<rparr>) = ledger p"
  "ledger (p\<lparr>market_share := e\<rparr>) = ledger p"
  by (simp_all add: ledger_def)

lemma ledger_reset: "map ledger (map reset_player ps) = map ledger ps"
  by (simp add: reset_player_def ledger_def)

lemma ledger_production_step:
  "production_step nd acc = Some acc' \<Longrightarrow> map ledger (snd acc') = map ledger (snd acc)"
  by (auto simp: production_step_def map_ledger_update split: if_splits option.splits)

lemma ledger_productionPhase:
  assumes "productionPhase s = Some (production, s')"
  shows "map ledger (players s') = map ledger (players s)"
proof -
  obtain acc where acc: "for_each (nodes s) production_step ([], players s) = Some acc"
    and s': "players s' = snd acc"
    using assms by (auto simp: productionPhase_def split: prod.splits)
  have "map ledger (snd acc) = map ledger (players s)"
    by (rule for_each_inv[where I = "\<lambda>a. map ledger (snd a) = map ledger (players s)", OF acc])
      (simp_all add: ledger_production_step)
  then show ?thesis by (simp add: s')
qed

lemma players_updateDemand:
  assumes "updateDemand pw s = Some s'"
  shows "players s' = players s"
proof -
  let ?tm = "BASE_TOTAL_DEMAND (settings s)
      * pw (REFERENCE_PRICE (settings s) / global_refined_price s) (DEMAND_ELASTICITY (settings s))"
  let ?tb = "foldl (\<lambda>total nd. if truthy (demand_base nd) then total + demand_base nd else total)
      (Num 0) (nodes s)"
  have run: "for_each [0..<length (nodes s)] (demand_step ?tm ?tb) s = Some s'"
    using assms by (simp add: updateDemand_def Let_def)
  show ?thesis
    by (rule for_each_inv[where I = "\<lambda>a. players a = players s", OF run])
      (auto simp: demand_step_def Let_def split: if_splits option.splits)
qed

lemma ledger_track_edge:
  "track_edge barrels k s = Some s' \<Longrightarrow> map ledger (players s') = map ledger (players s)"
  by (auto simp: track_edge_def Let_def map_ledger_update split: if_splits option.splits)

lemma ledger_trackRouteUsage:
  assumes "trackRouteUsage route barrels s = Some s'"
  shows "map ledger (players s') = map ledger (players s)"
  by (rule for_each_inv[where I = "\<lambda>a. map ledger (players a) = map ledger (players s)",
        OF assms[unfolded trackRouteUsage_def]])
    (simp_all add: ledger_track_edge)

lemma ledger_track_leg:
  "track_leg a b barrels s = Some s' \<Longrightarrow> map ledger (players s') = map ledger (players s)"
  by (auto simp: track_leg_def ledger_trackRouteUsage split: option.splits)

lemma ledger_trackInfrastructureUsage:
  "trackInfrastructureUsage p r d barrels s = Some s'
     \<Longrightarrow> map ledger (players s') = map ledger (players s)"
  by (auto simp: trackInfrastructureUsage_def split: option.splits dest!: ledger_track_leg)

lemma ledger_field_updates:
  "map ledger (xs[k := (xs ! k)\<lparr>revenue_this_turn := a\<rparr>]) = map ledger xs"
  "map ledger (xs[k := (xs ! k)\<lparr>costs_this_turn := b\<rparr>]) = map ledger xs"
  "map ledger (xs[k := (xs ! k)\<lparr>barrels_sold := c\<rparr>]) = map ledger xs"
  by (simp_all add: map_ledger_update)

lemma ledger_credit_sale:
  "map ledger (credit_sale w ro barrels cp rp rc ps) = map ledger ps"
  unfolding credit_sale_def Let_def by (simp only: ledger_field_updates)

lemma ledger_settle_route:
  assumes "settle_route i p r d s = Some s'"
  shows "map ledger (players s') = map ledger (players s)"
proof -
  obtain rf where rf: "buildings_refinery (nodes s ! r) = Some rf"
    using assms by (auto simp: settle_route_def Let_def split: option.splits)
  let ?barrels = "Math_min (current_demand (nodes s ! i))
      (Math_min (production_capacity (nodes s ! p)) (ref_capacity rf))"
  show ?thesis
  proof (cases "?barrels \<le> Num 0")
    case True
    then have "s' = s" using assms rf by (simp add: settle_route_def Let_def)
    then show ?thesis by simp
  next
    case False
    then obtain w c1 c2 t where
      t: "trackInfrastructureUsage p r d ?barrels
            (s\<lparr>players := credit_sale w (ref_owner rf) ?barrels
                 (operating_cost (nodes s ! p) + c1) (local_price (nodes s ! i))
                 (REFINERY_OPERATING_COST (settings s) + ref_fee rf + c2) (players s)\<rparr>) = Some t"
      and s': "players s' = players t"
      using assms rf
      by (auto simp: settle_route_def Let_def split: option.splits if_splits)
    show ?thesis using ledger_trackInfrastructureUsage[OF t] s' by (simp add: ledger_credit_sale)
  qed
qed

lemma ledger_route_step:
  assumes "route_step i s = Some s'"
  shows "map ledger (players s') = map ledger (players s)"
  using assms
  by (auto simp: route_step_def Let_def split: if_splits option.splits supply_route.splits
      dest!: ledger_settle_route)

lemma ledger_routeAndSatisfyDemand:
  assumes "routeAndSatisfyDemand production s = Some s'"
  shows "map ledger (players s') = map ledger (players s)"
  by (rule for_each_inv[where I = "\<lambda>a. map ledger (players a) = map ledger (players s)",
        OF assms[unfolded routeAndSatisfyDemand_def]])
    (simp_all add: ledger_route_step)

text \<open>The players just before the profit settlement of a turn.\<close>

lemma processTurn_players:
  assumes "processTurn pw dr s = Some s'"
  obtains ps where "map ledger ps = map ledger (players s)"
    and "players s' = calculateMarketShare (calculatePlayerProfits ps)"
proof -
  let ?s0 = "updateGlobalPrice (crude_draw dr) (refined_draw dr)
      (s\<lparr>players := map reset_player (players s), nodes := map reset_node (nodes s),
         edges := map reset_edge (edges s)\<rparr>)"
  obtain production s1 s2 s3 where 1: "productionPhase ?s0 = Some (production, s1)"
    and 2: "updateDemand pw s1 = Some s2"
    and 3: "routeAndSatisfyDemand production s2 = Some s3"
    and 4: "players s' = calculateMarketShare (calculatePlayerProfits
              (players (updateDemandGrowth (growth_jitter dr) s3)))"
    using assms
    by (auto simp: processTurn_def Let_def saveState_def split: option.splits prod.splits)
  have "players ?s0 = map reset_player (players s)"
    by (simp add: updateGlobalPrice_def Let_def)
  then have "map ledger (players s3) = map ledger (players s)"
    using ledger_productionPhase[OF 1] players_updateDemand[OF 2]
      ledger_routeAndSatisfyDemand[OF 3] ledger_reset[of "players s"]
    by simp
  moreover have "players (updateDemandGrowth (growth_jitter dr) s3) = players s3"
    by (simp add: updateDemandGrowth_def)
  ultimately show ?thesis using that 4 by simp
qed

lemma length_calculateMarketShare [simp]: "length (calculateMarketShare ps) = length ps"
  by (simp add: calculateMarketShare_def Let_def)

lemma calculateMarketShare_fields:
  assumes "i < length ps"
  shows "length (calculateMarketShare ps) = length ps"
    "ledger (calculateMarketShare ps ! i) = ledger (ps ! i)"
    "profit_this_turn (calculateMarketShare ps ! i) = profit_this_turn (ps ! i)"
    "revenue_this_turn (calculateMarketShare ps ! i) = revenue_this_turn (ps ! i)"
    "costs_this_turn (calculateMarketShare ps ! i) = costs_this_turn (ps ! i)"
    "barrels_sold (calculateMarketShare ps ! i) = barrels_sold (ps ! i)"
  using assms by (simp_all add: calculateMarketShare_def Let_def)

lemma settle_profit_fields:
  "profit_this_turn (settle_profit p) = revenue_this_turn p - costs_this_turn p"
  "cash (settle_profit p) = cash p + (revenue_this_turn p - costs_this_turn p)"
  "cumulative_profit (settle_profit p)
     = cumulative_profit p + (revenue_this_turn p - costs_this_turn p)"
  "profit_history (settle_profit p) = profit_history p @ [revenue_this_turn p - costs_this_turn p]"
  "revenue_this_turn (settle_profit p) = revenue_this_turn p"
  "costs_this_turn (settle_profit p) = costs_this_turn p"
  by (simp_all add: settle_profit_def Let_def)

lemma processTurn_profit:
  assumes "processTurn pw dr s = Some s'" "i < length (players s)"
  shows "length (players s') = length (players s)"
    and "profit_this_turn (players s' ! i)
          = revenue_this_turn (players s' ! i) - costs_this_turn (players s' ! i)"
    and "cash (players s' ! i) = cash (players s ! i) + profit_this_turn (players s' ! i)"
    and "cumulative_profit (players s' ! i)
          = cumulative_profit (players s ! i) + profit_this_turn (players s' ! i)"
    and "profit_history (players s' ! i)
          = profit_history (players s ! i) @ [profit_this_turn (players s' ! i)]"
proof -
  obtain ps where ps: "map ledger ps = map ledger (players s)"
    and s': "players s' = calculateMarketShare (calculatePlayerProfits ps)"
    by (rule processTurn_players[OF assms(1)])
  have len: "length ps = length (players s)" using ps by (metis length_map)
  then have i: "i < length ps" using assms(2) by simp
  have li: "ledger (ps ! i) = ledger (players s ! i)"
    using ps i assms(2) by (metis nth_map)
  have i': "i < length (calculatePlayerProfits ps)" using i by (simp add: calculatePlayerProfits_def)
  have q: "calculatePlayerProfits ps ! i = settle_profit (ps ! i)"
    using i by (simp add: calculatePlayerProfits_def)
  note m = calculateMarketShare_fields[OF i']
  show "length (players s') = length (players s)"
    using len by (simp add: s' calculatePlayerProfits_def)
  show "profit_this_turn (players s' ! i)
          = revenue_this_turn (players s' ! i) - costs_this_turn (players s' ! i)"
    by (simp add: s' m q settle_profit_fields)
  have l': "ledger (players s' ! i) = ledger (settle_profit (ps ! i))"
    by (simp add: s' m(2) q)
  have p': "profit_this_turn (players s' ! i) = revenue_this_turn (ps ! i) - costs_this_turn (ps ! i)"
    by (simp add: s' m q settle_profit_fields)
  show "cash (players s' ! i) = cash (players s ! i) + profit_this_turn (players s' ! i)"
    using l' li by (simp add: ledger_def settle_profit_fields p')
  show "cumulative_profit (players s' ! i)
          = cumulative_profit (players s ! i) + profit_this_turn (players s' ! i)"
    using l' li by (simp add: ledger_def settle_profit_fields p')
  show "profit_history (players s' ! i)
          = profit_history (players s ! i) @ [profit_this_turn (players s' ! i)]"
    using l' li by (simp add: ledger_def settle_profit_fields p')
qed

lemma per_turn_profits_Cons:
  "per_turn_profits (s1 # rest) i (Suc T)
     = profit_this_turn (players s1 ! i) # per_turn_profits rest i T"
  by (simp add: per_turn_profits_def map_upt_Suc del: upt_Suc)

lemma per_turn_profits_first:
  "per_turn_profits (s1 # rest) i (Suc 0) = [profit_this_turn (players s1 ! i)]"
  by (simp add: per_turn_profits_def)

text \<open>
  C2. Let a game be played for some turns from any state, every turn returning, and let
  \<open>states ! T\<close> be the state after turn \<open>T + 1\<close>. For every player, after that turn the
  per-turn profit is the per-turn revenue minus the per-turn costs; the profit history is
  the history before the first turn followed by the per-turn profits of the turns played
  so far; and the cumulative profit is the cumulative profit before the first turn (0 at
  the start of a game) to which these per-turn profits have been added one after the
  other, as the cash is from the cash before the first turn. The subtraction and the
  additions are those of the program, on Numbers.
\<close>

theorem profit_settlement:
  assumes "play pw drs s = Some states" "i < length (players s)" "T < length drs"
  shows "profit_this_turn (players (states ! T) ! i)
           = revenue_this_turn (players (states ! T) ! i) - costs_this_turn (players (states ! T) ! i)
       \<and> profit_history (players (states ! T) ! i)
           = profit_history (players s ! i) @ per_turn_profits states i (Suc T)
       \<and> cumulative_profit (players (states ! T) ! i)
           = foldl (+) (cumulative_profit (players s ! i)) (per_turn_profits states i (Suc T))
       \<and> cash (players (states ! T) ! i)
           = foldl (+) (cash (players s ! i)) (per_turn_profits states i (Suc T))"
  using assms
proof (induction drs arbitrary: s states T)
  case Nil
  then show ?case by simp
next
  case (Cons dr drs)
  from Cons.prems(1) obtain s1 rest where s1: "processTurn pw dr s = Some s1"
    and rest: "play pw drs s1 = Some rest" and states: "states = s1 # rest"
    by (auto split: option.splits)
  note turn = processTurn_profit[OF s1 Cons.prems(2)]
  show ?case
  proof (cases T)
    case 0
    then show ?thesis using turn by (simp add: states per_turn_profits_first)
  next
    case (Suc T')
    have i1: "i < length (players s1)" using turn(1) Cons.prems(2) by simp
    have T': "T' < length drs" using Cons.prems(3) Suc by simp
    note ih = Cons.IH[OF rest i1 T']
    have st: "states ! T = rest ! T'" by (simp add: states Suc)
    have pt: "per_turn_profits states i (Suc T)
        = profit_this_turn (players s1 ! i) # per_turn_profits rest i (Suc T')"
      by (simp only: states Suc per_turn_profits_Cons)
    show ?thesis
      using ih turn(3,4,5) by (simp add: st pt)
  qed
qed

lemma glut_game_accounts:
  "map_option (map (\<lambda>s. map account (players s)))
     (play unit_pow [quiet_draws, quiet_draws] glut_state)
   = Some [[(Num 4600, Num 2000, Num 2600, Num 2600, Num 50002600, [Num 2600]),
            (Num 17300, Num 3300, Num 14000, Num 14000, Num 50014000, [Num 14000])],
           [(Num 4600, Num 2000, Num 2600, Num 5200, Num 50005200, [Num 2600, Num 2600]),
            (Num 17300, Num 3300, Num 14000, Num 28000, Num 50028000,
             [Num 14000, Num 14000])]]"
  by code_simp

theorem profit_settlement_witness:
  "play unit_pow [quiet_draws, quiet_draws] glut_state = Some glut_game
   \<and> (0::nat) < length (players glut_state)
   \<and> (1::nat) < length [quiet_draws, quiet_draws]
   \<and> profit_this_turn (players (glut_game ! 1) ! 0)
        = revenue_this_turn (players (glut_game ! 1) ! 0)
            - costs_this_turn (players (glut_game ! 1) ! 0)
   \<and> account (players (glut_game ! 1) ! 0)
        = (Num 4600, Num 2000, Num 2600, Num 5200, Num 50005200, [Num 2600, Num 2600])
   \<and> per_turn_profits glut_game 0 (Suc 1) = [Num 2600, Num 2600]
   \<and> cumulative_profit (players (glut_game ! 1) ! 0)
        = foldl (+) (cumulative_profit (players glut_state ! 0))
            (per_turn_profits glut_game 0 (Suc 1))"
proof -
  note ev = glut_game_accounts
  then obtain states where st: "play unit_pow [quiet_draws, quiet_draws] glut_state = Some states"
    by (cases "play unit_pow [quiet_draws, quiet_draws] glut_state") simp_all
  then have run: "play unit_pow [quiet_draws, quiet_draws] glut_state = Some glut_game"
    by (simp only: glut_game_def option.case)
  from ev obtain s1 s2 where g: "glut_game = [s1, s2]"
    and a1: "map account (players s1)
        = [(Num 4600, Num 2000, Num 2600, Num 2600, Num 50002600, [Num 2600]),
           (Num 17300, Num 3300, Num 14000, Num 14000, Num 50014000, [Num 14000])]"
    and a2: "map account (players s2)
        = [(Num 4600, Num 2000, Num 2600, Num 5200, Num 50005200, [Num 2600, Num 2600]),
           (Num 17300, Num 3300, Num 14000, Num 28000, Num 50028000, [Num 14000, Num 14000])]"
    unfolding run by (auto simp: map_eq_Cons_conv)
  have p1: "account (players s1 ! 0)
      = (Num 4600, Num 2000, Num 2600, Num 2600, Num 50002600, [Num 2600])"
    using a1 by (auto simp: map_eq_Cons_conv)
  have p2: "account (players s2 ! 0)
      = (Num 4600, Num 2000, Num 2600, Num 5200, Num 50005200, [Num 2600, Num 2600])"
    using a2 by (auto simp: map_eq_Cons_conv)
  have len: "(0::nat) < length (players glut_state)" "(1::nat) < length [quiet_draws, quiet_draws]"
    by (simp_all add: glut_state_def)
  have acc: "account (players (glut_game ! 1) ! 0)
      = (Num 4600, Num 2000, Num 2600, Num 5200, Num 50005200, [Num 2600, Num 2600])"
    using p2 by (simp add: g)
  have pt: "per_turn_profits glut_game 0 (Suc 1) = [Num 2600, Num 2600]"
    using p1 p2 by (simp add: g per_turn_profits_def account_def)
  from profit_settlement [OF run len] run len acc pt
  show ?thesis by blast
qed

section \<open>Market shares\<close>





text \<open>
  When no barrel is sold in a turn the phase writes nothing, and the reset at the start of
  the turn does not touch the market shares: every player keeps the share of the last turn
  with sales. In the example game, after the second turn, in which every city imports,
  the two players have sold 0 barrels and still have a market share of 50 each.
\<close>

lemma market_share_kept_without_sales:
  "map_option (\<lambda>s. map (\<lambda>p. (barrels_sold p, market_share p)) (players s)) fee_raise_game
     = Some [(Num 0, Num 50), (Num 0, Num 50)]"
  by code_simp

section \<open>Capacities\<close>

text \<open>
  C1. The claim is that the barrels a refinery processes in a turn never exceed its
  capacity, that the barrels attributed to a well never exceed its capacity, and that the
  volume served to a city is clipped to the capacities that remain. The loop of
  \<^verbatim>\<open>routeAndSatisfyDemand\<close> clips the volume of every city to the rated capacities of the
  well and of the refinery, and keeps no count of what earlier cities of the turn have
  taken. In the example game one well of capacity 100 and one refinery of capacity 100
  supply two cities: each city is served 100 barrels, the refinery processes 200 barrels
  (a utilization of 2), and the owner of the well, who has no refinery, sells 200
  barrels.
\<close>

theorem routeAndSatisfyDemand_exceeds_capacity:
  "map_option
     (\<lambda>s. (production_capacity (nodes s ! 0),
            map supply_source [nodes s ! 1, nodes s ! 2],
            map_option (\<lambda>r. (ref_capacity r, barrels_processed r, ref_utilization r))
              (buildings_refinery (nodes s ! 1)),
            map barrels_sold (players s),
            map flow_volume (edges s)))
     (processTurn unit_pow quiet_draws glut_state)
   = Some (Num 100,
           [Some (PlayerSupply 0 1 1 (Num 38)), Some (PlayerSupply 0 1 2 (Num 41))],
           Some (Num 100, Num 200, Num 2),
           [Num 200, Num 200],
           [Num 200, Num 100, Num 0])"
  by code_simp

end
